theory Spec2Isabelle
  imports Main "HOL-Library.AList" "HOL-Library.Sublist"
begin

section \<open>Strings and values\<close>

text \<open>
  A Python \<open>str\<close> is a sequence of Unicode code points; \<open>len\<close>, slicing and
  \<open>str.replace\<close> count code points. A string is therefore a list of code points, and an
  ASCII literal of the source is written \<open>ustr ''...''\<close>.
\<close>

type_synonym ustring = "nat list"

definition ustr :: "string \<Rightarrow> ustring" where
  "ustr s = map of_char s"

text \<open>
  The values that flow through \<open>swarm_utils.py\<close>: what \<open>json.loads\<close> produces and what a
  caller builds from it. A \<open>dict\<close> keeps its insertion order; its keys are strings. A
  float is kept as mantissa and exponent; the code never computes with one.
\<close>

datatype pyval =
    PNone
  | PBool bool
  | PInt int
  | PFloat int int
  | PStr ustring
  | PList "pyval list"
  | PDict "(ustring \<times> pyval) list"

datatype error = TypeError | JSONDecodeError | OSError | UnicodeEncodeError

section \<open>The text cleaner: \<open>clean_swarm_text\<close>\<close>

subsection \<open>The two regular expressions\<close>

text \<open>
  Both patterns, \<open>\x1b\[[0-9;]*m\<close> and \<open>\\u001b\[[0-9;]*m\<close>, are a literal introducer
  followed by \<open>[0-9;]*m\<close>. The class \<open>[0-9;]\<close> holds the ASCII digits and the semicolon;
  \<open>m\<close> is not in it, so the greedy star matches the whole run of class characters and the
  pattern matches exactly when an \<open>m\<close> comes next.
\<close>

definition is_param :: "nat \<Rightarrow> bool" where
  "is_param c \<longleftrightarrow> (48 \<le> c \<and> c \<le> 57) \<or> c = 59"

fun params_m :: "ustring \<Rightarrow> ustring option" where
  "params_m [] = None"
| "params_m (c # cs) =
     (if is_param c then params_m cs else if c = 109 then Some cs else None)"

fun strip_prefix :: "ustring \<Rightarrow> ustring \<Rightarrow> ustring option" where
  "strip_prefix [] s = Some s"
| "strip_prefix (p # ps) [] = None"
| "strip_prefix (p # ps) (c # cs) = (if p = c then strip_prefix ps cs else None)"

text \<open>\<open>match_seq intro s\<close>: the pattern matched at the head of \<open>s\<close>; the text after the match.\<close>

definition match_seq :: "ustring \<Rightarrow> ustring \<Rightarrow> ustring option" where
  "match_seq intro s =
     (case strip_prefix intro s of None \<Rightarrow> None | Some r \<Rightarrow> params_m r)"

definition ansi_intro :: ustring where
  "ansi_intro = [27, 91]"

definition escaped_intro :: ustring where
  "escaped_intro = 92 # ustr ''u001b[''"

text \<open>
  \<open>re.sub(pattern, '', text)\<close>: scan from the left; where the pattern matches, drop the
  match and go on after it; elsewhere keep the character and go on at the next one.
\<close>

function re_sub_seq :: "ustring \<Rightarrow> ustring \<Rightarrow> ustring" where
  "re_sub_seq intro [] = []"
| "re_sub_seq intro (c # cs) =
     (case match_seq intro (c # cs) of
        Some rest \<Rightarrow> re_sub_seq intro rest
      | None \<Rightarrow> c # re_sub_seq intro cs)"
  by pat_completeness auto
termination
proof (relation "measure (\<lambda>(intro, s). length s)")
  show "wf (measure (\<lambda>(intro, s). length s))" by simp
next
  fix intro :: ustring and c cs rest
  assume m: "match_seq intro (c # cs) = Some rest"
  have p: "params_m s = Some r \<Longrightarrow> length r < length s" for s r
    by (induction s) (auto split: if_splits)
  have q: "strip_prefix i s = Some r \<Longrightarrow> length r \<le> length s" for i s r
    by (induction i s rule: strip_prefix.induct) (auto split: if_splits)
  from m obtain r where "strip_prefix intro (c # cs) = Some r" and "params_m r = Some rest"
    by (auto simp: match_seq_def split: option.splits)
  then have "length rest < length (c # cs)" using p [of r rest] q [of intro "c # cs" r] by simp
  then show "((intro, rest), (intro, c # cs)) \<in> measure (\<lambda>(intro, s). length s)" by simp
next
  fix intro :: ustring and c cs
  show "((intro, cs), (intro, c # cs)) \<in> measure (\<lambda>(intro, s). length s)" by simp
qed

text \<open>\<open>contains_seq intro s\<close>: the pattern matches somewhere in \<open>s\<close> (\<open>re.search\<close> finds it).\<close>

fun contains_seq :: "ustring \<Rightarrow> ustring \<Rightarrow> bool" where
  "contains_seq intro [] = False"
| "contains_seq intro (c # cs) =
     (match_seq intro (c # cs) \<noteq> None \<or> contains_seq intro cs)"

subsection \<open>The box-drawing table\<close>

text \<open>
  The dictionary \<open>box_chars\<close> in the order of its keys' first insertion (the literal names
  23 keys twice, once as a glyph and once as an escape, with the same value). Values:
  43 is \<open>+\<close>, 45 is \<open>-\<close>, 124 is \<open>|\<close>, 61 is \<open>=\<close>.
\<close>

definition box_chars :: "(nat \<times> nat) list" where
  "box_chars =
    [(0x256D, 43), (0x256E, 43), (0x2570, 43), (0x256F, 43), (0x2500, 45), (0x2502, 124),
     (0x251C, 43), (0x2514, 43), (0x2524, 43), (0x252C, 43), (0x2534, 43), (0x253C, 43),
     (0x2550, 61), (0x2554, 43), (0x2557, 43), (0x255A, 43), (0x255D, 43), (0x2551, 124),
     (0x2560, 43), (0x2563, 43), (0x2566, 43), (0x2569, 43), (0x256C, 43), (0x2552, 43),
     (0x2553, 43), (0x2555, 43), (0x2556, 43), (0x2558, 43), (0x2559, 43), (0x255B, 43),
     (0x255C, 43), (0x255E, 43), (0x255F, 43), (0x2561, 43), (0x2562, 43), (0x2564, 43),
     (0x2565, 43), (0x2567, 43), (0x2568, 43), (0x256A, 43), (0x256B, 43)]"

text \<open>\<open>text.replace(old_char, new_char)\<close> where both are one code point long.\<close>

definition replace_char :: "nat \<Rightarrow> nat \<Rightarrow> ustring \<Rightarrow> ustring" where
  "replace_char old_char new_char text = map (\<lambda>c. if c = old_char then new_char else c) text"

definition replace_box :: "ustring \<Rightarrow> ustring" where
  "replace_box text = fold (\<lambda>(old_char, new_char) t. replace_char old_char new_char t) box_chars text"

subsection \<open>The cleaner\<close>

definition clean_str :: "ustring \<Rightarrow> ustring" where
  "clean_str text = replace_box (re_sub_seq escaped_intro (re_sub_seq ansi_intro text))"

text \<open>\<open>clean_swarm_text\<close>: a value that is not a \<open>str\<close> is returned as it is.\<close>

fun clean_swarm_text :: "pyval \<Rightarrow> pyval" where
  "clean_swarm_text (PStr text) = PStr (clean_str text)"
| "clean_swarm_text v = v"


definition in_table :: "nat \<Rightarrow> bool" where
  "in_table c \<longleftrightarrow> c \<in> set (map fst box_chars)"

text \<open>What the table does to one code point: the value of its key, or the code point itself.\<close>

definition box_ascii :: "nat \<Rightarrow> nat" where
  "box_ascii c = (case map_of box_chars c of Some a \<Rightarrow> a | None \<Rightarrow> c)"

text \<open>
  An introducer is untouched by the table when none of its code points is a key or a value
  of the table.
\<close>

definition box_neutral :: "ustring \<Rightarrow> bool" where
  "box_neutral intro \<longleftrightarrow> list_all (\<lambda>p. p \<notin> {43, 45, 124, 61} \<and> p < 9472) intro"

section \<open>Python string and container operations\<close>

text \<open>\<open>text.find(sub)\<close>: the index of the first occurrence, or \<open>-1\<close>.\<close>

fun find_sub :: "ustring \<Rightarrow> ustring \<Rightarrow> nat option" where
  "find_sub sub [] = (if sub = [] then Some 0 else None)"
| "find_sub sub (c # cs) =
     (if prefix sub (c # cs) then Some 0 else map_option Suc (find_sub sub cs))"

definition py_find :: "ustring \<Rightarrow> ustring \<Rightarrow> int" where
  "py_find text sub = (case find_sub sub text of None \<Rightarrow> - 1 | Some i \<Rightarrow> int i)"

text \<open>\<open>sub in text\<close> for two strings.\<close>

definition str_contains :: "ustring \<Rightarrow> ustring \<Rightarrow> bool" where
  "str_contains sub text \<longleftrightarrow> find_sub sub text \<noteq> None"

text \<open>
  \<open>text[start:stop]\<close>: a negative index counts from the end, every index is clamped to
  the string, and an empty range gives the empty string.
\<close>

definition slice_index :: "nat \<Rightarrow> int \<Rightarrow> nat" where
  "slice_index n i = (if i < 0 then nat (max 0 (int n + i)) else min n (nat i))"

definition py_slice :: "ustring \<Rightarrow> int \<Rightarrow> int \<Rightarrow> ustring" where
  "py_slice text start stop =
     (let a = slice_index (length text) start; b = slice_index (length text) stop
      in take (b - a) (drop a text))"

text \<open>\<open>str.strip()\<close> removes the code points for which \<open>str.isspace\<close> holds.\<close>

definition is_space :: "nat \<Rightarrow> bool" where
  "is_space c \<longleftrightarrow>
     (9 \<le> c \<and> c \<le> 13) \<or> (28 \<le> c \<and> c \<le> 32) \<or> c = 0x85 \<or> c = 0xA0 \<or> c = 0x1680 \<or>
     (0x2000 \<le> c \<and> c \<le> 0x200A) \<or> c = 0x2028 \<or> c = 0x2029 \<or> c = 0x202F \<or>
     c = 0x205F \<or> c = 0x3000"

definition py_strip :: "ustring \<Rightarrow> ustring" where
  "py_strip s = rev (dropWhile is_space (rev (dropWhile is_space s)))"

text \<open>\<open>sep.join(parts)\<close>.\<close>

fun py_join :: "ustring \<Rightarrow> ustring list \<Rightarrow> ustring" where
  "py_join sep [] = []"
| "py_join sep [x] = x"
| "py_join sep (x # y # ys) = x @ sep @ py_join sep (y # ys)"

text \<open>
  \<open>\d\<close> in a \<open>str\<close> pattern matches every code point of category Nd, not only the ASCII
  digits. The Nd code points come in runs of ten; the list holds the first code point of
  each run (Unicode 14.0).
\<close>

definition nd_starts :: "nat list" where
  "nd_starts =
    [0x30, 0x660, 0x6F0, 0x7C0, 0x966, 0x9E6, 0xA66, 0xAE6, 0xB66, 0xBE6, 0xC66, 0xCE6,
     0xD66, 0xDE6, 0xE50, 0xED0, 0xF20, 0x1040, 0x1090, 0x17E0, 0x1810, 0x1946, 0x19D0,
     0x1A80, 0x1A90, 0x1B50, 0x1BB0, 0x1C40, 0x1C50, 0xA620, 0xA8D0, 0xA900, 0xA9D0,
     0xA9F0, 0xAA50, 0xABF0, 0xFF10, 0x104A0, 0x10D30, 0x11066, 0x110F0, 0x11136,
     0x111D0, 0x112F0, 0x11450, 0x114D0, 0x11650, 0x116C0, 0x11730, 0x118E0, 0x11950,
     0x11C50, 0x11D50, 0x11DA0, 0x16A60, 0x16AC0, 0x16B50, 0x1D7CE, 0x1D7D8, 0x1D7E2,
     0x1D7EC, 0x1D7F6, 0x1E140, 0x1E2F0, 0x1E950, 0x1FBF0]"

definition uni_digit :: "nat \<Rightarrow> bool" where
  "uni_digit c \<longleftrightarrow> list_ex (\<lambda>lo. lo \<le> c \<and> c < lo + 10) nd_starts"

text \<open>
  \<open>.*KW\<close> matched at the head of the text, for a literal \<open>KW\<close>: the dot matches every code
  point but the line feed, so \<open>KW\<close> has to start before the first line feed.
\<close>

fun dot_star_lit :: "ustring \<Rightarrow> ustring \<Rightarrow> bool" where
  "dot_star_lit kw [] = (kw = [])"
| "dot_star_lit kw (c # cs) = (prefix kw (c # cs) \<or> (c \<noteq> 10 \<and> dot_star_lit kw cs))"

text \<open>
  \<open>Agent agent_\d+.*KW\<close> matched at the head of the text. One digit is needed; further
  digits can be taken by \<open>\d+\<close> or by \<open>.*\<close> alike, so the pattern matches exactly when a
  digit follows the literal and \<open>.*KW\<close> matches after that digit.
\<close>

definition agent_kw_at :: "ustring \<Rightarrow> ustring \<Rightarrow> bool" where
  "agent_kw_at kw s =
     (case strip_prefix (ustr ''Agent agent_'') s of
        None \<Rightarrow> False
      | Some [] \<Rightarrow> False
      | Some (d # ds) \<Rightarrow> uni_digit d \<and> dot_star_lit kw ds)"

text \<open>\<open>re.search(r'Agent agent_\d+.*KW', text)\<close> finds a match.\<close>

fun re_search_agent_kw :: "ustring \<Rightarrow> ustring \<Rightarrow> bool" where
  "re_search_agent_kw kw [] = False"
| "re_search_agent_kw kw (c # cs) = (agent_kw_at kw (c # cs) \<or> re_search_agent_kw kw cs)"

text \<open>
  \<open>re.search(r'Agent (agent_\d+)', text)\<close>: group 1 of the leftmost match, with the
  greedy \<open>\d+\<close> taking the whole run of digits; \<open>None\<close> when there is no match.
\<close>

definition agent_id_at :: "ustring \<Rightarrow> ustring option" where
  "agent_id_at s =
     (case strip_prefix (ustr ''Agent agent_'') s of
        None \<Rightarrow> None
      | Some ds \<Rightarrow>
          if takeWhile uni_digit ds = [] then None
          else Some (ustr ''agent_'' @ takeWhile uni_digit ds))"

fun re_search_agent_id :: "ustring \<Rightarrow> ustring option" where
  "re_search_agent_id [] = None"
| "re_search_agent_id (c # cs) =
     (case agent_id_at (c # cs) of
        Some a \<Rightarrow> Some a
      | None \<Rightarrow> re_search_agent_id cs)"

text \<open>
  \<open>sub in x\<close> for a string \<open>sub\<close> and any value \<open>x\<close>: a substring test on a \<open>str\<close>, an
  element test on a \<open>list\<close>, a key test on a \<open>dict\<close>, and \<open>TypeError\<close> on a value that is
  no container.
\<close>

fun py_contains :: "ustring \<Rightarrow> pyval \<Rightarrow> error + bool" where
  "py_contains sub (PStr s) = Inr (str_contains sub s)"
| "py_contains sub (PList xs) = Inr (PStr sub \<in> set xs)"
| "py_contains sub (PDict kvs) = Inr (map_of kvs sub \<noteq> None)"
| "py_contains sub v = Inl TypeError"

text \<open>\<open>for item in x\<close>: the elements of a list, the keys of a dict, the characters of a str.\<close>

fun py_iter :: "pyval \<Rightarrow> error + pyval list" where
  "py_iter (PList xs) = Inr xs"
| "py_iter (PDict kvs) = Inr (map (\<lambda>kv. PStr (fst kv)) kvs)"
| "py_iter (PStr s) = Inr (map (\<lambda>c. PStr [c]) s)"
| "py_iter v = Inl TypeError"

text \<open>Truth value of a value in a condition.\<close>

fun py_truthy :: "pyval \<Rightarrow> bool" where
  "py_truthy PNone = False"
| "py_truthy (PBool b) = b"
| "py_truthy (PInt i) = (i \<noteq> 0)"
| "py_truthy (PFloat m e) = (m \<noteq> 0)"
| "py_truthy (PStr s) = (s \<noteq> [])"
| "py_truthy (PList xs) = (xs \<noteq> [])"
| "py_truthy (PDict kvs) = (kvs \<noteq> [])"

section \<open>The batch cleaner: \<open>clean_swarm_output\<close>\<close>

definition text_key :: ustring where
  "text_key = ustr ''text''"

text \<open>
  One pass of the loop body on a value: a dict with the key \<open>text\<close> is copied and the copy's
  \<open>text\<close> is set to the cleaned value; anything else is appended as it is.
\<close>

definition clean_item :: "pyval \<Rightarrow> pyval" where
  "clean_item item =
     (case item of
        PDict kvs \<Rightarrow>
          (case map_of kvs text_key of
             Some v \<Rightarrow> PDict (AList.update text_key (clean_swarm_text v) kvs)
           | None \<Rightarrow> item)
      | _ \<Rightarrow> item)"

fun clean_loop :: "pyval list \<Rightarrow> pyval list \<Rightarrow> pyval list" where
  "clean_loop cleaned_data [] = cleaned_data"
| "clean_loop cleaned_data (item # items) = clean_loop (cleaned_data @ [clean_item item]) items"

definition clean_swarm_output :: "pyval list \<Rightarrow> pyval list" where
  "clean_swarm_output json_data = clean_loop [] json_data"

section \<open>The content extractor: \<open>extract_swarm_content\<close>\<close>

text \<open>
  The dictionary \<open>content_sections\<close>. An entry of \<open>agent_responses\<close> or \<open>metrics\<close> is the
  pair of its two strings, the agent id first. \<open>swarm_status\<close> starts as \<open>None\<close> and
  \<open>collective_knowledge\<close> as the empty list.
\<close>

record content_sections =
  swarm_status :: pyval
  agent_responses :: "(ustring \<times> ustring) list"
  metrics :: "(ustring \<times> ustring) list"
  collective_knowledge :: pyval

definition initial_sections :: content_sections where
  "initial_sections =
     \<lparr>swarm_status = PNone, agent_responses = [], metrics = [], collective_knowledge = PList []\<rparr>"

text \<open>
  \<open>json.loads\<close> is a parameter of the model: \<open>loads s = None\<close> stands for the exception it
  raises on \<open>s\<close>.
\<close>

type_synonym json_loads = "ustring \<Rightarrow> pyval option"

text \<open>The agent id of a fragment, with the fallback of the source.\<close>

definition agent_id_of :: "ustring \<Rightarrow> ustring" where
  "agent_id_of text =
     (case re_search_agent_id text of Some a \<Rightarrow> a | None \<Rightarrow> ustr ''unknown'')"

definition metrics_delim :: ustring where
  "metrics_delim = 10 # 10 # ustr ''Metrics:''"

definition response_text_of :: "ustring \<Rightarrow> ustring" where
  "response_text_of text =
     (let response_start = py_find text (ustr ''Response:'') + 9;
          response_end = (if str_contains metrics_delim text then py_find text metrics_delim
                          else int (length text))
      in py_strip (py_slice text response_start response_end))"

definition metrics_text_of :: "ustring \<Rightarrow> ustring" where
  "metrics_text_of text =
     (let metrics_start = py_find text (ustr ''Metrics:'') + 8
      in py_strip (py_slice text metrics_start (int (length text))))"

text \<open>
  The text handed to \<open>json.loads\<close> in the knowledge branch: from the first \<open>[\<close> of the
  fragment's text to its end; \<open>None\<close> when the text has no \<open>[\<close>.
\<close>

definition knowledge_body :: "ustring \<Rightarrow> ustring option" where
  "knowledge_body text =
     (let knowledge_start = py_find text [91]
      in if knowledge_start \<noteq> - 1
         then Some (py_slice text knowledge_start (int (length text)))
         else None)"

text \<open>
  The inner loop over the parsed knowledge data. \<open>item['content'] = ...\<close> works on a dict
  only, and \<open>'content' in item\<close> on a container only.
\<close>

definition content_key :: ustring where
  "content_key = ustr ''content''"

definition clean_knowledge_item :: "pyval \<Rightarrow> error + pyval" where
  "clean_knowledge_item item =
     (case py_contains content_key item of
        Inl e \<Rightarrow> Inl e
      | Inr False \<Rightarrow> Inr item
      | Inr True \<Rightarrow>
          (case item of
             PDict kvs \<Rightarrow>
               (case map_of kvs content_key of
                  Some v \<Rightarrow> Inr (PDict (AList.update content_key (clean_swarm_text v) kvs))
                | None \<Rightarrow> Inl TypeError)
           | _ \<Rightarrow> Inl TypeError))"

fun clean_knowledge_items :: "pyval list \<Rightarrow> error + pyval list" where
  "clean_knowledge_items [] = Inr []"
| "clean_knowledge_items (item # items) =
     (case clean_knowledge_item item of
        Inl e \<Rightarrow> Inl e
      | Inr item' \<Rightarrow>
          (case clean_knowledge_items items of
             Inl e \<Rightarrow> Inl e
           | Inr items' \<Rightarrow> Inr (item' # items')))"

definition clean_knowledge :: "pyval \<Rightarrow> error + pyval" where
  "clean_knowledge knowledge_data =
     (case py_iter knowledge_data of
        Inl e \<Rightarrow> Inl e
      | Inr items \<Rightarrow>
          (case clean_knowledge_items items of
             Inl e \<Rightarrow> Inl e
           | Inr items' \<Rightarrow>
               Inr (case knowledge_data of PList xs \<Rightarrow> PList items' | v \<Rightarrow> v)))"

text \<open>
  The \<open>try\<close> block of the knowledge branch: whatever is raised inside it is dropped and the
  sections stay as they were.
\<close>

definition extract_knowledge :: "json_loads \<Rightarrow> content_sections \<Rightarrow> ustring \<Rightarrow> content_sections" where
  "extract_knowledge loads sections text =
     (case knowledge_body text of
        None \<Rightarrow> sections
      | Some body \<Rightarrow>
          (case loads body of
             None \<Rightarrow> sections
           | Some knowledge_data \<Rightarrow>
               (case clean_knowledge knowledge_data of
                  Inl e \<Rightarrow> sections
                | Inr cleaned \<Rightarrow> sections\<lparr>collective_knowledge := cleaned\<rparr>)))"

text \<open>The \<open>elif\<close> chain after the status test, for a \<open>text\<close> that is a string.\<close>

definition extract_text :: "json_loads \<Rightarrow> content_sections \<Rightarrow> ustring \<Rightarrow> content_sections" where
  "extract_text loads sections text =
     (if re_search_agent_kw (ustr ''Response:'') text then
        sections\<lparr>agent_responses :=
          agent_responses sections @ [(agent_id_of text, clean_str (response_text_of text))]\<rparr>
      else if re_search_agent_kw (ustr ''Metrics:'') text then
        sections\<lparr>metrics :=
          metrics sections @ [(agent_id_of text, clean_str (metrics_text_of text))]\<rparr>
      else if str_contains (ustr ''Collective Knowledge:'') text then
        extract_knowledge loads sections text
      else sections)"

text \<open>
  The body of the outer loop. \<open>'Swarm Status' in text\<close> is evaluated on whatever value the
  key \<open>text\<close> holds; \<open>re.search\<close> raises \<open>TypeError\<close> on a value that is not a string.
\<close>

definition extract_item :: "json_loads \<Rightarrow> content_sections \<Rightarrow> pyval \<Rightarrow> error + content_sections" where
  "extract_item loads sections item =
     (case item of
        PDict kvs \<Rightarrow>
          (case map_of kvs text_key of
             None \<Rightarrow> Inr sections
           | Some text \<Rightarrow>
               (case py_contains (ustr ''Swarm Status'') text of
                  Inl e \<Rightarrow> Inl e
                | Inr True \<Rightarrow> Inr (sections\<lparr>swarm_status := clean_swarm_text text\<rparr>)
                | Inr False \<Rightarrow>
                    (case text of
                       PStr t \<Rightarrow> Inr (extract_text loads sections t)
                     | _ \<Rightarrow> Inl TypeError)))
      | _ \<Rightarrow> Inr sections)"

fun extract_loop :: "json_loads \<Rightarrow> content_sections \<Rightarrow> pyval list \<Rightarrow> error + content_sections" where
  "extract_loop loads sections [] = Inr sections"
| "extract_loop loads sections (item # items) =
     (case extract_item loads sections item of
        Inl e \<Rightarrow> Inl e
      | Inr sections' \<Rightarrow> extract_loop loads sections' items)"

definition extract_swarm_content :: "json_loads \<Rightarrow> pyval list \<Rightarrow> error + content_sections" where
  "extract_swarm_content loads json_data = extract_loop loads initial_sections json_data"

section \<open>The summary formatter: \<open>format_swarm_summary\<close>\<close>

text \<open>\<open>response_text[:max_response_length]\<close>.\<close>

definition truncate_response :: "int \<Rightarrow> ustring \<Rightarrow> ustring" where
  "truncate_response max_response_length response_text =
     (if int (length response_text) > max_response_length
      then py_slice response_text 0 max_response_length @ ustr ''...''
      else response_text)"

fun response_lines :: "int \<Rightarrow> (ustring \<times> ustring) list \<Rightarrow> ustring list" where
  "response_lines max_response_length [] = []"
| "response_lines max_response_length ((agent_id, response_text) # rs) =
     (10 # agent_id @ ustr '':'') # truncate_response max_response_length response_text
       # response_lines max_response_length rs"

fun metric_lines :: "(ustring \<times> ustring) list \<Rightarrow> ustring list" where
  "metric_lines [] = []"
| "metric_lines ((agent_id, metrics_text) # ms) =
     (10 # agent_id @ ustr '':'') # metrics_text # metric_lines ms"

definition banner_block :: "ustring list" where
  "banner_block = [ustr ''SWARM ANALYSIS SUMMARY'', replicate 60 61]"

definition responses_block :: "int \<Rightarrow> (ustring \<times> ustring) list \<Rightarrow> ustring list" where
  "responses_block max_response_length rs =
     (if rs \<noteq> []
      then [10 # ustr ''AGENT RESPONSES:'', replicate 40 45] @ response_lines max_response_length rs
      else [])"

definition metrics_block :: "(ustring \<times> ustring) list \<Rightarrow> ustring list" where
  "metrics_block ms =
     (if ms \<noteq> []
      then [10 # 10 # ustr ''PERFORMANCE METRICS:'', replicate 40 45] @ metric_lines ms
      else [])"

text \<open>
  A status that is true in a condition is appended to the lines; \<open>"\n".join\<close> accepts
  strings only and raises \<open>TypeError\<close> on a line of another type.
\<close>

definition format_swarm_summary :: "content_sections \<Rightarrow> int \<Rightarrow> error + ustring" where
  "format_swarm_summary extracted_content max_response_length =
     (let tail = responses_block max_response_length (agent_responses extracted_content)
                 @ metrics_block (metrics extracted_content)
      in if py_truthy (swarm_status extracted_content) then
           (case swarm_status extracted_content of
              PStr status \<Rightarrow>
                Inr (py_join [10]
                  (banner_block @ [10 # ustr ''SWARM STATUS:'', replicate 40 45, status] @ tail))
            | _ \<Rightarrow> Inl TypeError)
         else Inr (py_join [10] (banner_block @ tail)))"

section \<open>The entry points\<close>

text \<open>
  \<open>display_swarm_analysis\<close>. The result holds what was printed (\<open>None\<close> when \<open>verbose\<close> is
  off), the cleaned data and the extracted content. \<open>clean_swarm_output\<close> iterates over
  whatever \<open>json.loads\<close> returned.
\<close>

definition resolve_content :: "json_loads \<Rightarrow> (ustring \<times> pyval) list \<Rightarrow> error + pyval list" where
  "resolve_content loads swarm_result =
     (case map_of swarm_result content_key of
        Some (PList xs) \<Rightarrow> Inr xs
      | Some (PStr raw) \<Rightarrow>
          (case loads raw of
             Some parsed \<Rightarrow> py_iter parsed
           | None \<Rightarrow> Inr [PDict [(text_key, PStr raw)]])
      | _ \<Rightarrow> Inr [])"

text \<open>
  \<open>print\<close> writes to the standard output, whose encoding and state belong to the
  environment: \<open>print_error report\<close> is the exception that \<open>print(report)\<close> raises, \<open>None\<close>
  when the report is written. A code point of the surrogate range, U+D800 to U+DFFF, can
  be in a \<open>str\<close> and has no UTF-8 encoding: on a UTF-8 console \<open>print\<close> raises
  \<open>UnicodeEncodeError\<close> on a report that holds one.
\<close>

definition utf8_encodable :: "ustring \<Rightarrow> bool" where
  "utf8_encodable s \<longleftrightarrow> list_all (\<lambda>c. c < 0xD800 \<or> 0xDFFF < c) s"

definition utf8_console :: "ustring \<Rightarrow> error option" where
  "utf8_console report = (if utf8_encodable report then None else Some UnicodeEncodeError)"

definition display_swarm_analysis ::
  "json_loads \<Rightarrow> (ustring \<Rightarrow> error option) \<Rightarrow> (ustring \<times> pyval) list \<Rightarrow> bool
     \<Rightarrow> error + (ustring option \<times> pyval list \<times> content_sections)" where
  "display_swarm_analysis loads print_error swarm_result verbose =
     (case resolve_content loads swarm_result of
        Inl e \<Rightarrow> Inl e
      | Inr json_data \<Rightarrow>
          (let cleaned_data = clean_swarm_output json_data
           in case extract_swarm_content loads cleaned_data of
                Inl e \<Rightarrow> Inl e
              | Inr extracted_content \<Rightarrow>
                  if verbose then
                    (case format_swarm_summary extracted_content 500 of
                       Inl e \<Rightarrow> Inl e
                     | Inr report \<Rightarrow>
                         (case print_error report of
                            Some e \<Rightarrow> Inl e
                          | None \<Rightarrow> Inr (Some report, cleaned_data, extracted_content)))
                  else Inr (None, cleaned_data, extracted_content)))"

text \<open>
  \<open>save_cleaned_swarm_output\<close>. The file system is a map from paths to contents. The
  result is the file system after the call and the exception raised, \<open>None\<close> when the
  call returns. The parse of a string argument is outside any \<open>try\<close>. \<open>open\<close> comes before
  \<open>json.dump\<close> and empties the file; the file is written as UTF-8, so a text with a
  surrogate code point raises \<open>UnicodeEncodeError\<close> in the middle of the writing. Parameters:
  \<open>dumps\<close>, the text that \<open>json.dump\<close> produces (with or without \<open>indent=2\<close>); \<open>can_open\<close>,
  whether the destination can be opened for writing; \<open>written_before\<close>, the part of the
  text that has reached the file when the writing raises.
\<close>

definition save_cleaned_swarm_output ::
  "json_loads \<Rightarrow> (bool \<Rightarrow> pyval \<Rightarrow> ustring) \<Rightarrow> (ustring \<Rightarrow> bool) \<Rightarrow> (ustring \<Rightarrow> ustring)
     \<Rightarrow> (ustring \<rightharpoonup> ustring) \<Rightarrow> pyval \<Rightarrow> ustring \<Rightarrow> bool
     \<Rightarrow> (ustring \<rightharpoonup> ustring) \<times> error option" where
  "save_cleaned_swarm_output loads dumps can_open written_before files json_data output_file
     format_output =
     (case (case json_data of
              PStr raw \<Rightarrow> (case loads raw of None \<Rightarrow> Inl JSONDecodeError | Some v \<Rightarrow> Inr v)
            | v \<Rightarrow> Inr v) of
        Inl e \<Rightarrow> (files, Some e)
      | Inr parsed_data \<Rightarrow>
          (case py_iter parsed_data of
             Inl e \<Rightarrow> (files, Some e)
           | Inr items \<Rightarrow>
               if can_open output_file then
                 (let out = dumps format_output (PList (clean_swarm_output items))
                  in if utf8_encodable out
                     then (files(output_file \<mapsto> out), None)
                     else (files(output_file \<mapsto> written_before out), Some UnicodeEncodeError))
               else (files, Some OSError)))"

section \<open>The batch cleaner on a store\<close>

text \<open>
  To speak about what \<open>clean_swarm_output\<close> mutates, lists and dicts live in a store and a
  value refers to them by address. The store is the list of all objects; the address of an
  object is its index, and a new object is put at the end. Strings and numbers are
  immutable and stay values.
\<close>

type_synonym addr = nat

datatype hval = HNone | HBool bool | HInt int | HFloat int int | HStr ustring | HRef addr

datatype hobj = HList "hval list" | HDict "(ustring \<times> hval) list"

type_synonym store = "hobj list"

definition alloc :: "store \<Rightarrow> hobj \<Rightarrow> store \<times> addr" where
  "alloc h obj = (h @ [obj], length h)"

fun clean_swarm_text_h :: "hval \<Rightarrow> hval" where
  "clean_swarm_text_h (HStr text) = HStr (clean_str text)"
| "clean_swarm_text_h v = v"

text \<open>\<open>xs.append(x)\<close> on the list object at address \<open>a\<close>.\<close>

definition list_append :: "store \<Rightarrow> addr \<Rightarrow> hval \<Rightarrow> store" where
  "list_append h a x =
     (if a < length h
      then (case h ! a of HList xs \<Rightarrow> h[a := HList (xs @ [x])] | HDict kvs \<Rightarrow> h)
      else h)"

text \<open>\<open>d[key] = v\<close> on the dict object at address \<open>a\<close>.\<close>

definition dict_set :: "store \<Rightarrow> addr \<Rightarrow> ustring \<Rightarrow> hval \<Rightarrow> store" where
  "dict_set h a key v =
     (if a < length h
      then (case h ! a of HDict kvs \<Rightarrow> h[a := HDict (AList.update key v kvs)] | HList xs \<Rightarrow> h)
      else h)"

text \<open>The dict an item refers to, when it is a dict that has the key \<open>text\<close>.\<close>

definition text_dict :: "store \<Rightarrow> hval \<Rightarrow> ((ustring \<times> hval) list \<times> hval) option" where
  "text_dict h item =
     (case item of
        HRef a \<Rightarrow>
          (if a < length h
           then (case h ! a of
                   HDict kvs \<Rightarrow> (case map_of kvs text_key of Some v \<Rightarrow> Some (kvs, v) | None \<Rightarrow> None)
                 | HList xs \<Rightarrow> None)
           else None)
      | _ \<Rightarrow> None)"

text \<open>
  The loop body: \<open>item.copy()\<close> allocates a dict with the same entries, the assignment
  writes into the copy, and \<open>append\<close> writes into the list \<open>cleaned_data\<close>.
\<close>

definition clean_step :: "addr \<Rightarrow> hval \<Rightarrow> store \<Rightarrow> store" where
  "clean_step cleaned_data item h =
     (case text_dict h item of
        Some (kvs, v) \<Rightarrow>
          (let (h1, cleaned_item) = alloc h (HDict kvs);
               h2 = dict_set h1 cleaned_item text_key (clean_swarm_text_h v)
           in list_append h2 cleaned_data (HRef cleaned_item))
      | None \<Rightarrow> list_append h cleaned_data item)"

text \<open>
  \<open>clean_swarm_output\<close> on the store: \<open>json_data\<close> is the address of the caller's list (a
  dict is iterated by its keys; an address outside the store is not a Python value and is
  refused). The result is the new store and the address of \<open>cleaned_data\<close>. The elements
  of \<open>json_data\<close> are read once, before the loop: no step of the loop writes to that list
  (lemma \<open>loop_reads_same_list\<close>), so the \<open>for\<close> statement finds the same elements.
\<close>

definition clean_swarm_output_h :: "store \<Rightarrow> addr \<Rightarrow> error + (store \<times> addr)" where
  "clean_swarm_output_h h json_data =
     (if json_data < length h
      then (case h ! json_data of
              HList items \<Rightarrow>
                (let (h0, cleaned_data) = alloc h (HList [])
                 in Inr (fold (clean_step cleaned_data) items h0, cleaned_data))
            | HDict kvs \<Rightarrow>
                (let (h0, cleaned_data) = alloc h (HList [])
                 in Inr (fold (clean_step cleaned_data) (map (\<lambda>kv. HStr (fst kv)) kvs) h0,
                         cleaned_data)))
      else Inl TypeError)"

section \<open>Inputs and predicates of the statements\<close>

text \<open>
  Nesting of ANSI sequences. \<open>begins_seq s\<close>: a complete sequence of either form starts at
  the head of \<open>s\<close>. \<open>interrupted i s\<close>: reading \<open>s\<close> as the rest \<open>i\<close> of an introducer
  followed by parameters, a complete sequence starts before the closing \<open>m\<close> is reached.
  \<open>nested s\<close>: somewhere in \<open>s\<close> the beginning of a sequence of either form (one code point
  or more of the introducer, then of the parameters) is directly followed by a complete
  sequence of either form.
\<close>

definition begins_seq :: "ustring \<Rightarrow> bool" where
  "begins_seq s \<longleftrightarrow> match_seq ansi_intro s \<noteq> None \<or> match_seq escaped_intro s \<noteq> None"



definition is_intro :: "ustring \<Rightarrow> bool" where
  "is_intro X \<longleftrightarrow> X = ansi_intro \<or> X = escaped_intro"







text \<open>The fragment sequence of the end-to-end example.\<close>

definition e2e_input :: "pyval list" where
  "e2e_input =
     [PDict [(ustr ''text'', PStr (ustr ''Swarm Status: active''))],
      PDict [(ustr ''text'',
              PStr (ustr ''Agent agent_1 Response: Hello'' @ [10, 10] @ ustr ''Metrics: latency=5ms''))]]"

text \<open>An item whose \<open>text\<close>, when it has one, is a string.\<close>

definition text_is_str :: "pyval \<Rightarrow> bool" where
  "text_is_str item =
     (case item of
        PDict kvs \<Rightarrow>
          (case map_of kvs text_key of Some (PStr t) \<Rightarrow> True | Some v \<Rightarrow> False | None \<Rightarrow> True)
      | _ \<Rightarrow> True)"

text \<open>Every recorded agent id is \<open>agent_\<close> followed by digits.\<close>

definition ids_ok :: "content_sections \<Rightarrow> bool" where
  "ids_ok sections \<longleftrightarrow>
     (\<forall>p \<in> set (agent_responses sections) \<union> set (metrics sections).
        (\<exists>ds. ds \<noteq> [] \<and> list_all uni_digit ds \<and> fst p = ustr ''agent_'' @ ds) \<and>
        fst p \<noteq> ustr ''unknown'')"

text \<open>The status is \<open>None\<close> or a string.\<close>

definition status_ok :: "content_sections \<Rightarrow> bool" where
  "status_ok sections \<longleftrightarrow>
     (case swarm_status sections of PNone \<Rightarrow> True | PStr s \<Rightarrow> True | _ \<Rightarrow> False)"

text \<open>
  The knowledge body as the specification words it: the text from the first \<open>[\<close> at or
  after the marker \<open>Collective Knowledge:\<close>.
\<close>

definition knowledge_marker :: ustring where
  "knowledge_marker = ustr ''Collective Knowledge:''"

definition knowledge_body_spec :: "ustring \<Rightarrow> ustring option" where
  "knowledge_body_spec text =
     (case find_sub knowledge_marker text of
        None \<Rightarrow> None
      | Some m \<Rightarrow>
          (case find_sub [91] (drop m text) of
             None \<Rightarrow> None
           | Some k \<Rightarrow> Some (drop (m + k) text)))"

text \<open>A knowledge fragment with a \<open>[\<close> before the marker.\<close>

definition bracket_first_text :: ustring where
  "bracket_first_text = ustr ''[x] Collective Knowledge: [{}]''"

text \<open>
  Two stand-ins for \<open>json.loads\<close> on the texts of the examples: \<open>loads_one\<close> parses \<open>[{}]\<close>
  to the list of one empty dict and rejects the text \<open>[x] Collective Knowledge: [{}]\<close>, as
  \<open>json.loads\<close> does; \<open>loads_none\<close> rejects its argument, as \<open>json.loads\<close> does on a text
  that is not JSON.
\<close>

definition loads_one :: json_loads where
  "loads_one s = (if s = ustr ''[{}]'' then Some (PList [PDict []]) else None)"

definition loads_none :: json_loads where
  "loads_none s = None"

section \<open>Properties of the text cleaner\<close>

subsection \<open>The replacement loop is a map\<close>

lemma box_fold: "fold (\<lambda>(a, n) t. replace_char a n t) kvs s = map (\<lambda>c. fold (\<lambda>(a, n) d. if d = a then n else d) kvs c) s"
  by (induction kvs arbitrary: s) (auto simp: replace_char_def)

lemma fold_replace_map_of:
  "snd ` set kvs \<inter> fst ` set kvs = {} \<Longrightarrow>
   fold (\<lambda>(a, n) d. if d = a then n else d) kvs c = (case map_of kvs c of Some n \<Rightarrow> n | None \<Rightarrow> c)"
proof (induction kvs arbitrary: c)
  case Nil show ?case by simp
next
  case (Cons kv kvs)
  obtain a n where kv: "kv = (a, n)" by (cases kv)
  from Cons.prems have disj: "snd ` set kvs \<inter> fst ` set kvs = {}" by auto
  from Cons.prems kv have "n \<notin> fst ` set kvs" by auto
  then have n: "map_of kvs n = None" by (simp add: map_of_eq_None_iff)
  show ?case
  proof (cases "c = a")
    case True
    with kv Cons.IH [OF disj, of n] n show ?thesis by simp
  next
    case False
    with kv Cons.IH [OF disj, of c] show ?thesis by simp
  qed
qed

lemma box_chars_disjoint: "snd ` set box_chars \<inter> fst ` set box_chars = {}"
  by (simp add: box_chars_def)

lemma replace_box_map: "replace_box s = map box_ascii s"
  unfolding replace_box_def box_fold box_ascii_def
  by (simp add: fold_replace_map_of [OF box_chars_disjoint])


lemma in_table_iff: "in_table c \<longleftrightarrow> box_ascii c \<noteq> c"
  by (simp add: in_table_def box_ascii_def box_chars_def)


lemma not_in_table_box_ascii: "\<not> in_table (box_ascii c)"
  by (simp add: in_table_def box_ascii_def box_chars_def)

lemma box_ascii_idem: "box_ascii (box_ascii c) = box_ascii c"
  using not_in_table_box_ascii [of c] by (simp add: in_table_iff)



subsection \<open>What the patterns match\<close>

lemma params_m_iff: "params_m s = Some r \<longleftrightarrow> (\<exists>ps. list_all is_param ps \<and> s = ps @ 109 # r)"
proof (induction s)
  case Nil show ?case by simp
next
  case (Cons c cs)
  show ?case
  proof (cases "is_param c")
    case True
    have "(\<exists>ps. list_all is_param ps \<and> c # cs = ps @ 109 # r) \<longleftrightarrow> (\<exists>ps. list_all is_param ps \<and> cs = ps @ 109 # r)"
    proof
      assume "\<exists>ps. list_all is_param ps \<and> c # cs = ps @ 109 # r"
      then obtain ps where ps: "list_all is_param ps" "c # cs = ps @ 109 # r" by blast
      with True have "ps \<noteq> []" by (auto simp: is_param_def)
      then obtain q qs where "ps = q # qs" by (cases ps) auto
      with ps show "\<exists>ps. list_all is_param ps \<and> cs = ps @ 109 # r" by auto
    next
      assume "\<exists>ps. list_all is_param ps \<and> cs = ps @ 109 # r"
      then obtain ps where "list_all is_param ps" "cs = ps @ 109 # r" by blast
      with True have "list_all is_param (c # ps) \<and> c # cs = (c # ps) @ 109 # r" by simp
      then show "\<exists>ps. list_all is_param ps \<and> c # cs = ps @ 109 # r" by blast
    qed
    with True Cons show ?thesis by simp
  next
    case False
    have "(\<exists>ps. list_all is_param ps \<and> c # cs = ps @ 109 # r) \<longleftrightarrow> (c = 109 \<and> cs = r)"
    proof
      assume "\<exists>ps. list_all is_param ps \<and> c # cs = ps @ 109 # r"
      then obtain ps where ps: "list_all is_param ps" "c # cs = ps @ 109 # r" by blast
      with False have "ps = []" by (cases ps) auto
      with ps show "c = 109 \<and> cs = r" by simp
    next
      assume "c = 109 \<and> cs = r"
      then have "list_all is_param [] \<and> c # cs = [] @ 109 # r" by simp
      then show "\<exists>ps. list_all is_param ps \<and> c # cs = ps @ 109 # r" by blast
    qed
    with False show ?thesis by auto
  qed
qed

lemma strip_prefix_iff: "strip_prefix p s = Some r \<longleftrightarrow> s = p @ r"
  by (induction p s rule: strip_prefix.induct) auto

lemma strip_prefix_append: "strip_prefix p (p @ r) = Some r"
  by (induction p) auto

lemma match_seq_iff:
  "match_seq intro s = Some r \<longleftrightarrow> (\<exists>ps. list_all is_param ps \<and> s = intro @ ps @ 109 # r)"
proof -
  have "match_seq intro s = Some r \<longleftrightarrow> (\<exists>q. strip_prefix intro s = Some q \<and> params_m q = Some r)"
    by (cases "strip_prefix intro s") (simp_all add: match_seq_def)
  also have "\<dots> \<longleftrightarrow> (\<exists>q. s = intro @ q \<and> (\<exists>ps. list_all is_param ps \<and> q = ps @ 109 # r))"
    by (simp only: strip_prefix_iff params_m_iff)
  also have "\<dots> \<longleftrightarrow> (\<exists>ps. list_all is_param ps \<and> s = intro @ ps @ 109 # r)"
    by blast
  finally show ?thesis .
qed

lemma match_seq_shorter: "match_seq intro s = Some r \<Longrightarrow> length r < length s"
  by (auto simp: match_seq_iff)

lemma contains_seq_iff:
  "contains_seq intro s \<longleftrightarrow>
     (\<exists>pre ps post. list_all is_param ps \<and> s = pre @ intro @ ps @ 109 # post)"
proof (induction s)
  case Nil show ?case by simp
next
  case (Cons c cs)
  show ?case (is "?L = ?R")
  proof
    assume ?L
    then consider r where "match_seq intro (c # cs) = Some r" | "contains_seq intro cs" by auto
    then show ?R
    proof cases
      case 1
      then obtain ps where "list_all is_param ps" "c # cs = [] @ intro @ ps @ 109 # r"
        by (auto simp: match_seq_iff)
      then show ?thesis by blast
    next
      case 2
      with Cons obtain pre ps post where "list_all is_param ps" "cs = pre @ intro @ ps @ 109 # post"
        by blast
      then have "list_all is_param ps \<and> c # cs = (c # pre) @ intro @ ps @ 109 # post" by simp
      then show ?thesis by blast
    qed
  next
    assume ?R
    then obtain pre ps post where h: "list_all is_param ps" "c # cs = pre @ intro @ ps @ 109 # post"
      by blast
    show ?L
    proof (cases pre)
      case Nil
      with h have "match_seq intro (c # cs) = Some post" by (auto simp: match_seq_iff)
      then show ?thesis by simp
    next
      case (Cons q qs)
      with h have "cs = qs @ intro @ ps @ 109 # post" by simp
      with h(1) Cons.IH have "contains_seq intro cs" by blast
      then show ?thesis by simp
    qed
  qed
qed

subsection \<open>What the substitution removes\<close>

lemma re_sub_seq_length: "length (re_sub_seq intro s) \<le> length s"
proof (induction intro s rule: re_sub_seq.induct)
  case (1 intro) show ?case by simp
next
  case (2 intro c cs)
  show ?case
  proof (cases "match_seq intro (c # cs)")
    case None with 2 show ?thesis by simp
  next
    case (Some r)
    with 2 have "length (re_sub_seq intro r) \<le> length r" by simp
    moreover from Some have "length r < length (c # cs)" by (rule match_seq_shorter)
    ultimately show ?thesis using Some by simp
  qed
qed


lemma re_sub_seq_same_length:
  "length (re_sub_seq intro s) = length s \<longleftrightarrow> \<not> contains_seq intro s"
proof (induction s)
  case Nil show ?case by simp
next
  case (Cons c cs)
  show ?case
  proof (cases "match_seq intro (c # cs)")
    case None with Cons show ?thesis by simp
  next
    case (Some r)
    then have "length r < length (c # cs)" by (rule match_seq_shorter)
    moreover have "length (re_sub_seq intro r) \<le> length r" by (rule re_sub_seq_length)
    ultimately show ?thesis using Some by simp
  qed
qed

lemma re_sub_seq_id: "\<not> contains_seq intro s \<Longrightarrow> re_sub_seq intro s = s"
  by (induction s) (auto split: option.splits)

lemma re_sub_seq_id_iff: "re_sub_seq intro s = s \<longleftrightarrow> \<not> contains_seq intro s"
  using re_sub_seq_id re_sub_seq_same_length by metis

subsection \<open>The table does not touch the patterns\<close>





lemma box_neutral_ansi: "box_neutral ansi_intro"
  by (simp add: box_neutral_def ansi_intro_def)

lemma box_neutral_escaped: "box_neutral escaped_intro"
  by (simp add: box_neutral_def escaped_intro_def ustr_def)

lemma clean_str_eq: "clean_str s = map box_ascii (re_sub_seq escaped_intro (re_sub_seq ansi_intro s))"
  by (simp add: clean_str_def replace_box_map)

lemma map_box_idem: "map box_ascii (map box_ascii s) = map box_ascii s"
  by (simp add: box_ascii_idem)

lemmas clean_eval = clean_str_def ansi_intro_def escaped_intro_def ustr_def match_seq_def
  is_param_def replace_box_def box_chars_def replace_char_def

subsection \<open>Idempotence\<close>

text \<open>
  Claim C2 says that cleaning is idempotent on every string. One pass of \<open>re.sub\<close> removes
  the matches it finds from left to right; when a sequence encloses another one, removing
  the inner one leaves a new sequence behind, which only the next cleaning removes. On
  \<open>ESC [ ESC [ m m\<close> the first cleaning gives \<open>ESC [ m\<close> and the second the empty string.
\<close>

theorem clean_idempotent_counterexample:
  "clean_str (clean_str [27, 91, 27, 91, 109, 109]) \<noteq> clean_str [27, 91, 27, 91, 109, 109]"
  by (simp add: clean_eval)

text \<open>
  C2, amended: for every string \<open>s\<close>, cleaning the cleaned string gives the cleaned string
  again exactly when the cleaned string contains no ANSI sequence of either form (literal
  or escaped).
\<close>

theorem clean_idempotent_iff:
  "clean_str (clean_str s) = clean_str s \<longleftrightarrow>
     \<not> contains_seq ansi_intro (clean_str s) \<and> \<not> contains_seq escaped_intro (clean_str s)"
proof
  assume eq: "clean_str (clean_str s) = clean_str s"
  let ?c = "clean_str s"
  have "length ?c = length (re_sub_seq escaped_intro (re_sub_seq ansi_intro ?c))"
    using arg_cong [OF eq, of length] by (simp add: clean_str_eq [of ?c])
  moreover have "length (re_sub_seq escaped_intro (re_sub_seq ansi_intro ?c))
      \<le> length (re_sub_seq ansi_intro ?c)"
    by (rule re_sub_seq_length)
  moreover have "length (re_sub_seq ansi_intro ?c) \<le> length ?c"
    by (rule re_sub_seq_length)
  ultimately have l1: "length (re_sub_seq ansi_intro ?c) = length ?c"
    and l2: "length (re_sub_seq escaped_intro (re_sub_seq ansi_intro ?c))
               = length (re_sub_seq ansi_intro ?c)"
    by simp_all
  from l1 have a: "\<not> contains_seq ansi_intro ?c" by (simp add: re_sub_seq_same_length)
  then have "re_sub_seq ansi_intro ?c = ?c" by (rule re_sub_seq_id)
  with l2 have "\<not> contains_seq escaped_intro ?c" by (simp add: re_sub_seq_same_length)
  with a show "\<not> contains_seq ansi_intro ?c \<and> \<not> contains_seq escaped_intro ?c" ..
next
  assume h: "\<not> contains_seq ansi_intro (clean_str s) \<and> \<not> contains_seq escaped_intro (clean_str s)"
  then have "re_sub_seq escaped_intro (re_sub_seq ansi_intro (clean_str s)) = clean_str s"
    by (simp add: re_sub_seq_id)
  then have "clean_str (clean_str s) = map box_ascii (clean_str s)"
    by (simp add: clean_str_eq [of "clean_str s"])
  also have "\<dots> = clean_str s" by (simp add: clean_str_eq [of s] box_ascii_idem)
  finally show "clean_str (clean_str s) = clean_str s" .
qed

theorem clean_idempotent_iff_witness:
  "clean_str (clean_str [27, 91, 51, 49, 109, 9581, 9472, 9582, 27, 91, 48, 109])
     = clean_str [27, 91, 51, 49, 109, 9581, 9472, 9582, 27, 91, 48, 109]"
proof -
  have h: "\<not> contains_seq ansi_intro (clean_str [27, 91, 51, 49, 109, 9581, 9472, 9582, 27, 91, 48, 109])
      \<and> \<not> contains_seq escaped_intro (clean_str [27, 91, 51, 49, 109, 9581, 9472, 9582, 27, 91, 48, 109])"
    by (simp add: clean_eval)
  show ?thesis by (rule iffD2 [OF clean_idempotent_iff h])
qed

subsection \<open>Sequences that the removal leaves behind\<close>


lemma match_seq_Cons [simp]:
  "match_seq (p # ps) (c # cs) = (if p = c then match_seq ps cs else None)"
  by (simp add: match_seq_def)

lemma match_seq_empty [simp]: "match_seq i [] = None"
  by (cases i) (simp_all add: match_seq_def)

lemma begins_seq_Nil [simp]: "\<not> begins_seq []"
  by (simp add: begins_seq_def)













lemma is_intro_neutral: "is_intro X \<Longrightarrow> box_neutral X"
  by (auto simp: is_intro_def box_neutral_ansi box_neutral_escaped)


subsection \<open>What the cleaner keeps\<close>












subsection \<open>What the output contains\<close>




section \<open>Properties of the batch cleaner\<close>

lemma clean_loop_map: "clean_loop acc items = acc @ map clean_item items"
  by (induction items arbitrary: acc) simp_all

lemma clean_swarm_output_map: "clean_swarm_output json_data = map clean_item json_data"
  by (simp add: clean_swarm_output_def clean_loop_map)

lemma map_of_update: "map_of (AList.update k v kvs) = (map_of kvs)(k \<mapsto> v)"
  by (rule update_conv')

lemma update_keys: "map_of kvs k = Some w \<Longrightarrow> map fst (AList.update k v kvs) = map fst kvs"
  by (induction kvs) (auto split: if_splits)

text \<open>
  C7: for every fragment sequence \<open>F\<close>, the batch cleaner returns a sequence of the same
  length in the same order: at each index, an element that is a dict with the key \<open>text\<close>
  comes back as a dict with the same keys in the same order whose \<open>text\<close> holds the
  cleaned value and whose other entries are the same, and every other element comes back
  as it is.
\<close>

theorem batch_clean:
  "length (clean_swarm_output F) = length F \<and>
   (\<forall>i < length F.
      (\<forall>kvs v. F ! i = PDict kvs \<and> map_of kvs text_key = Some v \<longrightarrow>
         (\<exists>kvs'. clean_swarm_output F ! i = PDict kvs' \<and>
                 map fst kvs' = map fst kvs \<and>
                 map_of kvs' = (map_of kvs)(text_key \<mapsto> clean_swarm_text v))) \<and>
      ((\<forall>kvs. F ! i = PDict kvs \<longrightarrow> map_of kvs text_key = None) \<longrightarrow>
         clean_swarm_output F ! i = F ! i))"
proof (intro conjI allI impI)
  show "length (clean_swarm_output F) = length F" by (simp add: clean_swarm_output_map)
next
  fix i kvs v
  assume i: "i < length F" and d: "F ! i = PDict kvs \<and> map_of kvs text_key = Some v"
  then have "clean_swarm_output F ! i = PDict (AList.update text_key (clean_swarm_text v) kvs)"
    by (simp add: clean_swarm_output_map clean_item_def)
  moreover from d have "map fst (AList.update text_key (clean_swarm_text v) kvs) = map fst kvs"
    by (simp add: update_keys)
  ultimately show "\<exists>kvs'. clean_swarm_output F ! i = PDict kvs' \<and> map fst kvs' = map fst kvs \<and>
      map_of kvs' = (map_of kvs)(text_key \<mapsto> clean_swarm_text v)"
    by (simp add: map_of_update)
next
  fix i
  assume i: "i < length F" and n: "\<forall>kvs. F ! i = PDict kvs \<longrightarrow> map_of kvs text_key = None"
  then show "clean_swarm_output F ! i = F ! i"
    by (cases "F ! i") (simp_all add: clean_swarm_output_map clean_item_def)
qed

theorem batch_clean_witness:
  "length (clean_swarm_output
     [PDict [(text_key, PStr [27, 91, 109, 72, 105]), (ustr ''k'', PInt 1)], PInt 3]) = 2 \<and>
   clean_swarm_output
     [PDict [(text_key, PStr [27, 91, 109, 72, 105]), (ustr ''k'', PInt 1)], PInt 3] ! 1 = PInt 3 \<and>
   (\<exists>kvs'. clean_swarm_output
       [PDict [(text_key, PStr [27, 91, 109, 72, 105]), (ustr ''k'', PInt 1)], PInt 3] ! 0 = PDict kvs' \<and>
     map fst kvs' = [text_key, ustr ''k''] \<and>
     map_of kvs' text_key = Some (PStr [72, 105]))"
proof -
  let ?d = "[(text_key, PStr [27, 91, 109, 72, 105]), (ustr ''k'', PInt 1)]"
  let ?F = "[PDict ?d, PInt 3]"
  note b = batch_clean [of ?F]
  have c: "clean_swarm_text (PStr [27, 91, 109, 72, 105]) = PStr [72, 105]"
    by (simp add: clean_eval)
  from b have l: "length (clean_swarm_output ?F) = length ?F" by blast
  have "\<forall>kvs. ?F ! 1 = PDict kvs \<longrightarrow> map_of kvs text_key = None" by simp
  moreover have "(1::nat) < length ?F" by simp
  ultimately have o: "clean_swarm_output ?F ! 1 = ?F ! 1" using b by blast
  have "?F ! 0 = PDict ?d \<and> map_of ?d text_key = Some (PStr [27, 91, 109, 72, 105])" by simp
  moreover have "(0::nat) < length ?F" by simp
  ultimately have "\<exists>kvs'. clean_swarm_output ?F ! 0 = PDict kvs' \<and> map fst kvs' = map fst ?d \<and>
      map_of kvs' = (map_of ?d)(text_key \<mapsto> clean_swarm_text (PStr [27, 91, 109, 72, 105]))"
    using b by blast
  then obtain kvs' where k: "clean_swarm_output ?F ! 0 = PDict kvs'" "map fst kvs' = map fst ?d"
      "map_of kvs' = (map_of ?d)(text_key \<mapsto> clean_swarm_text (PStr [27, 91, 109, 72, 105]))"
    by blast
  from k(3) c have "map_of kvs' text_key = Some (PStr [72, 105])" by simp
  with k(1,2) have "clean_swarm_output ?F ! 0 = PDict kvs' \<and> map fst kvs' = [text_key, ustr ''k''] \<and>
      map_of kvs' text_key = Some (PStr [72, 105])" by simp
  then have "\<exists>kvs'. clean_swarm_output ?F ! 0 = PDict kvs' \<and> map fst kvs' = [text_key, ustr ''k''] \<and>
      map_of kvs' text_key = Some (PStr [72, 105])" by (rule exI)
  with l o show ?thesis by simp
qed


section \<open>Properties of the content extractor\<close>

lemmas extract_eval = extract_swarm_content_def initial_sections_def extract_item_def
  extract_text_def text_key_def str_contains_def agent_kw_at_def uni_digit_def nd_starts_def
  agent_id_of_def agent_id_at_def response_text_of_def metrics_text_of_def metrics_delim_def
  py_find_def py_slice_def slice_index_def py_strip_def is_space_def

subsection \<open>What the search operations find\<close>

text \<open>
  \<open>find_sub\<close> gives the least index at which the substring starts, as \<open>str.find\<close> does.
\<close>

lemma find_sub_iff:
  "find_sub sub t = Some i \<longleftrightarrow>
     (i \<le> length t \<and> prefix sub (drop i t) \<and> (\<forall>j < i. \<not> prefix sub (drop j t)))"
proof (induction t arbitrary: i)
  case Nil
  show ?case by auto
next
  case (Cons c cs)
  show ?case
  proof (cases "prefix sub (c # cs)")
    case True
    then show ?thesis by (cases i) auto
  next
    case False
    show ?thesis
    proof (cases i)
      case 0
      with False show ?thesis by simp
    next
      case (Suc k)
      have "(\<forall>j < Suc k. \<not> prefix sub (drop j (c # cs))) \<longleftrightarrow> (\<forall>j < k. \<not> prefix sub (drop j cs))"
        using False by (auto simp: less_Suc_eq_0_disj)
      with False Suc Cons.IH [of k] show ?thesis by auto
    qed
  qed
qed

text \<open>
  The search for \<open>Agent agent_\d+.*KW\<close> succeeds exactly on the texts that hold the literal
  \<open>Agent agent_\<close>, then one digit or more, then code points other than the line feed, then
  \<open>KW\<close>.
\<close>

lemma dot_star_lit_iff:
  "dot_star_lit kw s \<longleftrightarrow> (\<exists>mid post. s = mid @ kw @ post \<and> 10 \<notin> set mid)"
proof (induction s)
  case Nil
  show ?case by auto
next
  case (Cons c cs)
  show ?case (is "?L = ?R")
  proof
    assume ?L
    then consider "prefix kw (c # cs)" | "c \<noteq> 10" "dot_star_lit kw cs" by auto
    then show ?R
    proof cases
      case 1
      then obtain post where "c # cs = [] @ kw @ post" by (auto simp: prefix_def)
      then show ?thesis by (metis empty_iff list.set(1))
    next
      case 2
      with Cons obtain mid post where "cs = mid @ kw @ post" "10 \<notin> set mid" by blast
      with 2 have "c # cs = (c # mid) @ kw @ post \<and> 10 \<notin> set (c # mid)" by simp
      then show ?thesis by blast
    qed
  next
    assume ?R
    then obtain mid post where h: "c # cs = mid @ kw @ post" "10 \<notin> set mid" by blast
    show ?L
    proof (cases mid)
      case Nil
      with h have "prefix kw (c # cs)" by (simp add: prefix_def)
      then show ?thesis by simp
    next
      case (Cons m ms)
      with h have "c \<noteq> 10" "cs = ms @ kw @ post" "10 \<notin> set ms" by auto
      with Cons.IH have "c \<noteq> 10 \<and> dot_star_lit kw cs" by blast
      then show ?thesis by simp
    qed
  qed
qed

lemma line_feed_no_digit: "\<not> uni_digit 10"
  by (simp add: uni_digit_def nd_starts_def)

lemma agent_kw_at_iff:
  "agent_kw_at kw s \<longleftrightarrow>
     (\<exists>ds mid post. s = ustr ''Agent agent_'' @ ds @ mid @ kw @ post \<and>
        ds \<noteq> [] \<and> list_all uni_digit ds \<and> 10 \<notin> set mid)"
  (is "?L = ?R")
proof
  assume ?L
  then obtain d r where s: "s = ustr ''Agent agent_'' @ d # r" and d: "uni_digit d"
    and r: "dot_star_lit kw r"
    by (auto simp: agent_kw_at_def strip_prefix_iff split: option.splits list.splits)
  from r obtain mid post where "r = mid @ kw @ post" "10 \<notin> set mid"
    by (auto simp: dot_star_lit_iff)
  with s d have "s = ustr ''Agent agent_'' @ [d] @ mid @ kw @ post \<and> [d] \<noteq> [] \<and>
      list_all uni_digit [d] \<and> 10 \<notin> set mid" by simp
  then show ?R by blast
next
  assume ?R
  then obtain ds mid post where h: "s = ustr ''Agent agent_'' @ ds @ mid @ kw @ post"
    "ds \<noteq> []" "list_all uni_digit ds" "10 \<notin> set mid" by blast
  then obtain d ds' where ds: "ds = d # ds'" by (cases ds) auto
  with h have d: "uni_digit d" and nl: "10 \<notin> set ds'"
    using line_feed_no_digit by (auto simp: list_all_iff)
  from h nl have "dot_star_lit kw (ds' @ mid @ kw @ post)"
    unfolding dot_star_lit_iff
    by (intro exI [of _ "ds' @ mid"] exI [of _ post]) simp
  moreover from h ds have "strip_prefix (ustr ''Agent agent_'') s = Some (d # ds' @ mid @ kw @ post)"
    by (simp add: strip_prefix_iff)
  ultimately show ?L using d by (simp add: agent_kw_at_def)
qed

lemma re_search_agent_kw_iff:
  "re_search_agent_kw kw t \<longleftrightarrow>
     (\<exists>pre ds mid post. t = pre @ ustr ''Agent agent_'' @ ds @ mid @ kw @ post \<and>
        ds \<noteq> [] \<and> list_all uni_digit ds \<and> 10 \<notin> set mid)"
proof (induction t)
  case Nil
  show ?case by (simp add: ustr_def)
next
  case (Cons c cs)
  show ?case (is "?L = ?R")
  proof
    assume ?L
    then consider "agent_kw_at kw (c # cs)" | "re_search_agent_kw kw cs" by auto
    then show ?R
    proof cases
      case 1
      then obtain ds mid post where "c # cs = [] @ ustr ''Agent agent_'' @ ds @ mid @ kw @ post"
        "ds \<noteq> []" "list_all uni_digit ds" "10 \<notin> set mid"
        by (auto simp: agent_kw_at_iff)
      then show ?thesis by blast
    next
      case 2
      with Cons obtain pre ds mid post where "cs = pre @ ustr ''Agent agent_'' @ ds @ mid @ kw @ post"
        "ds \<noteq> []" "list_all uni_digit ds" "10 \<notin> set mid" by blast
      then have "c # cs = (c # pre) @ ustr ''Agent agent_'' @ ds @ mid @ kw @ post \<and>
        ds \<noteq> [] \<and> list_all uni_digit ds \<and> 10 \<notin> set mid" by simp
      then show ?thesis by blast
    qed
  next
    assume ?R
    then obtain pre ds mid post where h: "c # cs = pre @ ustr ''Agent agent_'' @ ds @ mid @ kw @ post"
        "ds \<noteq> []" "list_all uni_digit ds" "10 \<notin> set mid" by blast
    show ?L
    proof (cases pre)
      case Nil
      with h have "agent_kw_at kw (c # cs)" unfolding agent_kw_at_iff by auto
      then show ?thesis by simp
    next
      case (Cons p ps)
      with h have "cs = ps @ ustr ''Agent agent_'' @ ds @ mid @ kw @ post" by simp
      with h Cons.IH have "re_search_agent_kw kw cs" by blast
      then show ?thesis by simp
    qed
  qed
qed

subsection \<open>The end-to-end example\<close>

text \<open>
  Claim C1 says that the example's second fragment, \<open>Agent agent_1 Response: Hello\<close>,
  two line feeds, \<open>Metrics: latency=5ms\<close>, gives a response entry and a metrics entry. The
  fragment matches the response pattern, so the \<open>elif\<close> chain never reaches the metrics
  branch for it: the metrics of the result are empty, not the pair of \<open>agent_1\<close> and
  \<open>latency=5ms\<close>.
\<close>

theorem e2e_counterexample:
  "(case extract_swarm_content loads_none e2e_input of
      Inl e \<Rightarrow> None
    | Inr r \<Rightarrow> Some (metrics r)) = Some [] \<and>
   (case extract_swarm_content loads_none e2e_input of
      Inl e \<Rightarrow> None
    | Inr r \<Rightarrow> Some (metrics r)) \<noteq> Some [(ustr ''agent_1'', ustr ''latency=5ms'')]"
  by (simp add: e2e_input_def extract_eval clean_eval)

text \<open>
  C1, amended: for the example's fragment sequence the extractor returns the status
  \<open>Swarm Status: active\<close>, the single response entry of \<open>agent_1\<close> and \<open>Hello\<close>, and no
  metrics entry (and no knowledge), whatever \<open>json.loads\<close> does.
\<close>

theorem e2e_extract:
  "extract_swarm_content loads e2e_input =
     Inr \<lparr>swarm_status = PStr (ustr ''Swarm Status: active''),
          agent_responses = [(ustr ''agent_1'', ustr ''Hello'')],
          metrics = [],
          collective_knowledge = PList []\<rparr>"
  by (simp add: e2e_input_def extract_eval clean_eval)

theorem e2e_extract_witness:
  "extract_swarm_content loads_none e2e_input =
     Inr \<lparr>swarm_status = PStr (ustr ''Swarm Status: active''),
          agent_responses = [(ustr ''agent_1'', ustr ''Hello'')],
          metrics = [],
          collective_knowledge = PList []\<rparr>"
  by (rule e2e_extract)

subsection \<open>Finding the knowledge body\<close>

lemma find_sub_single:
  "find_sub [c] t = (if c \<in> set t then Some (length (takeWhile (\<lambda>x. x \<noteq> c) t)) else None)"
  by (induction t) auto

lemma py_slice_from: "k \<le> length t \<Longrightarrow> py_slice t (int k) (int (length t)) = drop k t"
  by (simp add: py_slice_def slice_index_def)

lemma knowledge_body_eq:
  "knowledge_body t = (if 91 \<in> set t then Some (dropWhile (\<lambda>c. c \<noteq> 91) t) else None)"
proof (cases "91 \<in> set t")
  case True
  have "length (takeWhile (\<lambda>x. x \<noteq> 91) t) \<le> length t" by (rule length_takeWhile_le)
  then have "py_slice t (int (length (takeWhile (\<lambda>x. x \<noteq> 91) t))) (int (length t))
      = dropWhile (\<lambda>c. c \<noteq> 91) t"
    by (simp add: py_slice_from dropWhile_eq_drop)
  with True show ?thesis by (simp add: knowledge_body_def py_find_def find_sub_single)
next
  case False
  then show ?thesis by (simp add: knowledge_body_def py_find_def find_sub_single)
qed

lemma find_sub_le: "find_sub sub t = Some m \<Longrightarrow> m \<le> length t"
  by (induction t arbitrary: m) (auto split: if_splits)

lemma knowledge_body_spec_agree:
  assumes m: "find_sub knowledge_marker t = Some m" and before: "91 \<notin> set (take m t)"
  shows "knowledge_body t = knowledge_body_spec t"
proof -
  have t: "t = take m t @ drop m t" by simp
  from before have dw: "dropWhile (\<lambda>c. c \<noteq> 91) t = dropWhile (\<lambda>c. c \<noteq> 91) (drop m t)"
    by (subst t, subst dropWhile_append2) auto
  from before have mem: "91 \<in> set t \<longleftrightarrow> 91 \<in> set (drop m t)"
    by (subst t) (simp only: set_append Un_iff, simp)
  have "drop (m + length (takeWhile (\<lambda>x. x \<noteq> 91) (drop m t))) t
      = dropWhile (\<lambda>c. c \<noteq> 91) (drop m t)"
    by (simp add: dropWhile_eq_drop add.commute)
  then show ?thesis
    using m by (simp add: knowledge_body_eq knowledge_body_spec_def find_sub_single dw mem)
qed

subsection \<open>Exceptions\<close>

lemma extract_item_str_total:
  "text_is_str item \<Longrightarrow> \<exists>s'. extract_item loads sections item = Inr s'"
  by (auto simp: text_is_str_def extract_item_def split: pyval.splits option.splits bool.splits)

lemma extract_loop_str_total:
  "list_all text_is_str items \<Longrightarrow> \<exists>r. extract_loop loads sections items = Inr r"
proof (induction items arbitrary: sections)
  case Nil show ?case by simp
next
  case (Cons item items)
  then obtain s' where "extract_item loads sections item = Inr s'"
    using extract_item_str_total [of item loads sections] by auto
  moreover from Cons obtain r where "extract_loop loads s' items = Inr r" by auto
  ultimately show ?case by simp
qed

lemma extract_swarm_content_str_total:
  "list_all text_is_str json_data \<Longrightarrow> \<exists>r. extract_swarm_content loads json_data = Inr r"
  unfolding extract_swarm_content_def by (rule extract_loop_str_total)

text \<open>
  Claim C4 says that the extractor never raises, whatever values the \<open>text\<close> fields hold.
  On the fragment \<open>{"text": 5}\<close> the test \<open>'Swarm Status' in text\<close> raises \<open>TypeError\<close>,
  and no handler of the extractor catches it.
\<close>

theorem extract_non_string_text_counterexample:
  "extract_swarm_content loads_none [PDict [(ustr ''text'', PInt 5)]] = Inl TypeError"
  by (simp add: extract_swarm_content_def extract_item_def text_key_def)

text \<open>
  C4, amended: for every fragment sequence whose \<open>text\<close> fields, where present, hold
  strings, the extractor returns a record and raises nothing, whatever \<open>json.loads\<close> does;
  in particular, when \<open>json.loads\<close> rejects the body of a knowledge fragment, the sections
  stay as they were.
\<close>

theorem extract_never_raises_on_strings:
  "list_all text_is_str json_data \<Longrightarrow>
   (\<exists>r. extract_swarm_content loads json_data = Inr r) \<and>
   (\<forall>sections t body. knowledge_body t = Some body \<and> loads body = None
      \<longrightarrow> extract_knowledge loads sections t = sections)"
proof
  assume "list_all text_is_str json_data"
  then show "\<exists>r. extract_swarm_content loads json_data = Inr r"
    by (rule extract_swarm_content_str_total)
next
  show "\<forall>sections t body. knowledge_body t = Some body \<and> loads body = None
      \<longrightarrow> extract_knowledge loads sections t = sections"
    by (simp add: extract_knowledge_def)
qed

theorem extract_never_raises_on_strings_witness:
  "(\<exists>r. extract_swarm_content loads_none
           [PDict [(text_key, PStr (ustr ''Collective Knowledge: [1,''))], PInt 3] = Inr r) \<and>
   extract_knowledge loads_none initial_sections (ustr ''Collective Knowledge: [1,'')
     = initial_sections"
proof -
  let ?t = "ustr ''Collective Knowledge: [1,''"
  have s: "list_all text_is_str [PDict [(text_key, PStr ?t)], PInt 3]"
    by (simp add: text_is_str_def)
  note e = extract_never_raises_on_strings [OF s, of loads_none]
  have k: "knowledge_body ?t = Some (ustr ''[1,'') \<and> loads_none (ustr ''[1,'') = None"
    by (simp add: knowledge_body_eq loads_none_def) (simp add: ustr_def)
  from e have "\<exists>r. extract_swarm_content loads_none [PDict [(text_key, PStr ?t)], PInt 3] = Inr r"
    by blast
  moreover from e k have "extract_knowledge loads_none initial_sections ?t = initial_sections"
    by blast
  ultimately show ?thesis by blast
qed

subsection \<open>Agent ids\<close>

lemma agent_kw_at_id: "agent_kw_at kw s \<Longrightarrow> \<exists>a. agent_id_at s = Some a"
  by (auto simp: agent_kw_at_def agent_id_at_def split: option.splits list.splits)

lemma search_kw_id: "re_search_agent_kw kw t \<Longrightarrow> \<exists>a. re_search_agent_id t = Some a"
proof (induction t)
  case Nil then show ?case by simp
next
  case (Cons c cs)
  show ?case
  proof (cases "agent_id_at (c # cs)")
    case (Some a) then show ?thesis by simp
  next
    case None
    with Cons.prems have "re_search_agent_kw kw cs" using agent_kw_at_id [of kw "c # cs"] by auto
    with Cons.IH None show ?thesis by simp
  qed
qed

lemma agent_id_at_form:
  "agent_id_at s = Some a \<Longrightarrow> \<exists>ds. ds \<noteq> [] \<and> list_all uni_digit ds \<and> a = ustr ''agent_'' @ ds"
proof -
  assume h: "agent_id_at s = Some a"
  then obtain r where r: "takeWhile uni_digit r \<noteq> []" "a = ustr ''agent_'' @ takeWhile uni_digit r"
    by (auto simp: agent_id_at_def split: option.splits if_splits)
  have "list_all uni_digit (takeWhile uni_digit r)"
    by (simp add: list_all_iff) (meson set_takeWhileD)
  with r show ?thesis by blast
qed

lemma re_search_agent_id_form:
  "re_search_agent_id t = Some a \<Longrightarrow> \<exists>ds. ds \<noteq> [] \<and> list_all uni_digit ds \<and> a = ustr ''agent_'' @ ds"
  by (induction t) (auto split: option.splits dest: agent_id_at_form)

lemma agent_form_not_unknown: "ustr ''agent_'' @ ds \<noteq> ustr ''unknown''"
  by (simp add: ustr_def)

lemma agent_id_of_form:
  "re_search_agent_kw kw t \<Longrightarrow>
   (\<exists>ds. ds \<noteq> [] \<and> list_all uni_digit ds \<and> agent_id_of t = ustr ''agent_'' @ ds) \<and>
   agent_id_of t \<noteq> ustr ''unknown''"
proof -
  assume "re_search_agent_kw kw t"
  then obtain a where a: "re_search_agent_id t = Some a" using search_kw_id by blast
  then obtain ds where "ds \<noteq> []" "list_all uni_digit ds" "a = ustr ''agent_'' @ ds"
    using re_search_agent_id_form by blast
  with a show ?thesis by (auto simp: agent_id_of_def agent_form_not_unknown)
qed

lemma extract_knowledge_ids: "ids_ok sections \<Longrightarrow> ids_ok (extract_knowledge loads sections t)"
  by (simp add: extract_knowledge_def ids_ok_def split: option.splits sum.splits)

lemma extract_text_ids: "ids_ok sections \<Longrightarrow> ids_ok (extract_text loads sections t)"
  using agent_id_of_form [of "ustr ''Response:''" t] agent_id_of_form [of "ustr ''Metrics:''" t]
    extract_knowledge_ids [of sections loads t]
  by (auto simp: extract_text_def ids_ok_def)

lemma extract_item_ids:
  "ids_ok sections \<Longrightarrow> extract_item loads sections item = Inr s' \<Longrightarrow> ids_ok s'"
proof -
  assume ok: "ids_ok sections" and e: "extract_item loads sections item = Inr s'"
  have st: "ids_ok (sections\<lparr>swarm_status := v\<rparr>)" for v using ok by (simp add: ids_ok_def)
  from e ok st extract_text_ids [OF ok] show ?thesis
    by (auto simp: extract_item_def split: pyval.splits option.splits sum.splits bool.splits)
qed

lemma extract_loop_ids:
  "ids_ok sections \<Longrightarrow> extract_loop loads sections items = Inr r \<Longrightarrow> ids_ok r"
proof (induction items arbitrary: sections)
  case Nil then show ?case by simp
next
  case (Cons item items)
  from Cons.prems(2) obtain s' where s': "extract_item loads sections item = Inr s'"
    and r: "extract_loop loads s' items = Inr r"
    by (auto split: sum.splits)
  from Cons.prems(1) s' have "ids_ok s'" by (rule extract_item_ids)
  then show ?case using r by (rule Cons.IH)
qed

text \<open>
  C10: in every result of the extractor, the agent id of each response entry and of each
  metrics entry is \<open>agent_\<close> followed by a non-empty run of digits (in the sense of \<open>\d\<close>),
  and is never the fallback \<open>unknown\<close>.
\<close>

theorem agent_id_form:
  "extract_swarm_content loads json_data = Inr r \<Longrightarrow>
   \<forall>p \<in> set (agent_responses r) \<union> set (metrics r).
     (\<exists>ds. ds \<noteq> [] \<and> list_all uni_digit ds \<and> fst p = ustr ''agent_'' @ ds) \<and>
     fst p \<noteq> ustr ''unknown''"
proof -
  assume "extract_swarm_content loads json_data = Inr r"
  then have "extract_loop loads initial_sections json_data = Inr r"
    by (simp add: extract_swarm_content_def)
  moreover have "ids_ok initial_sections" by (simp add: ids_ok_def initial_sections_def)
  ultimately have "ids_ok r" by (rule extract_loop_ids [rotated])
  then show ?thesis by (simp add: ids_ok_def)
qed

theorem agent_id_form_witness:
  "extract_swarm_content loads_none e2e_input
     = Inr \<lparr>swarm_status = PStr (ustr ''Swarm Status: active''),
            agent_responses = [(ustr ''agent_1'', ustr ''Hello'')],
            metrics = [],
            collective_knowledge = PList []\<rparr> \<and>
   (\<exists>ds. ds \<noteq> [] \<and> list_all uni_digit ds \<and> ustr ''agent_1'' = ustr ''agent_'' @ ds) \<and>
   ustr ''agent_1'' \<noteq> ustr ''unknown''"
proof -
  let ?r = "\<lparr>swarm_status = PStr (ustr ''Swarm Status: active''),
            agent_responses = [(ustr ''agent_1'', ustr ''Hello'')],
            metrics = [],
            collective_knowledge = PList []\<rparr>"
  have run: "extract_swarm_content loads_none e2e_input = Inr ?r"
    by (simp add: e2e_input_def extract_eval clean_eval)
  from agent_id_form [OF run] have
    "\<forall>p \<in> set (agent_responses ?r) \<union> set (metrics ?r).
       (\<exists>ds. ds \<noteq> [] \<and> list_all uni_digit ds \<and> fst p = ustr ''agent_'' @ ds) \<and>
       fst p \<noteq> ustr ''unknown''" .
  then have "(\<exists>ds. ds \<noteq> [] \<and> list_all uni_digit ds \<and> ustr ''agent_1'' = ustr ''agent_'' @ ds) \<and>
      ustr ''agent_1'' \<noteq> ustr ''unknown''"
    by simp
  with run show ?thesis by (simp only: simp_thms)
qed

subsection \<open>The knowledge body\<close>

text \<open>
  Claim C5 says that the parsed body begins at the first \<open>[\<close> at or after the marker. The
  source takes \<open>text.find('[')\<close> on the whole text. In \<open>[x] Collective Knowledge: [{}]\<close>
  the first \<open>[\<close> is at index 0, before the marker: the whole text goes to \<open>json.loads\<close>,
  which rejects it, and the knowledge stays empty; the body in the words of the claim is
  \<open>[{}]\<close>.
\<close>

theorem knowledge_body_counterexample:
  "str_contains (ustr ''Collective Knowledge:'') bracket_first_text \<and>
   knowledge_body bracket_first_text = Some bracket_first_text \<and>
   knowledge_body_spec bracket_first_text = Some (ustr ''[{}]'') \<and>
   extract_swarm_content loads_one [PDict [(ustr ''text'', PStr bracket_first_text)]]
     = Inr initial_sections"
  by (simp add: bracket_first_text_def knowledge_body_def knowledge_body_spec_def
      knowledge_marker_def extract_knowledge_def loads_one_def extract_eval clean_eval)

text \<open>
  C5, amended: for every fragment classified as Collective Knowledge (its text holds the
  marker and matches none of the earlier branches), the body handed to \<open>json.loads\<close> begins
  at the first \<open>[\<close> of the whole text, wherever the marker is, and nothing is parsed when
  the text has no \<open>[\<close>; it is the body from the first \<open>[\<close> at or after the marker whenever
  no \<open>[\<close> comes before the marker.
\<close>

theorem knowledge_body_first_bracket:
  assumes "\<not> str_contains (ustr ''Swarm Status'') t"
    and "\<not> re_search_agent_kw (ustr ''Response:'') t"
    and "\<not> re_search_agent_kw (ustr ''Metrics:'') t"
    and "str_contains (ustr ''Collective Knowledge:'') t"
  shows "extract_item loads sections (PDict [(text_key, PStr t)])
           = Inr (extract_knowledge loads sections t) \<and>
         extract_knowledge loads sections t =
           (case knowledge_body t of
              None \<Rightarrow> sections
            | Some body \<Rightarrow>
                (case loads body of
                   None \<Rightarrow> sections
                 | Some knowledge_data \<Rightarrow>
                     (case clean_knowledge knowledge_data of
                        Inl e \<Rightarrow> sections
                      | Inr cleaned \<Rightarrow> sections\<lparr>collective_knowledge := cleaned\<rparr>))) \<and>
         knowledge_body t = (if 91 \<in> set t then Some (dropWhile (\<lambda>c. c \<noteq> 91) t) else None) \<and>
         (\<forall>m. find_sub (ustr ''Collective Knowledge:'') t = Some m \<and> 91 \<notin> set (take m t)
            \<longrightarrow> knowledge_body t = knowledge_body_spec t)"
proof (intro conjI allI impI)
  show "extract_item loads sections (PDict [(text_key, PStr t)])
           = Inr (extract_knowledge loads sections t)"
    using assms by (simp add: extract_item_def extract_text_def)
  show "knowledge_body t = (if 91 \<in> set t then Some (dropWhile (\<lambda>c. c \<noteq> 91) t) else None)"
    by (rule knowledge_body_eq)
  show "extract_knowledge loads sections t =
           (case knowledge_body t of
              None \<Rightarrow> sections
            | Some body \<Rightarrow>
                (case loads body of
                   None \<Rightarrow> sections
                 | Some knowledge_data \<Rightarrow>
                     (case clean_knowledge knowledge_data of
                        Inl e \<Rightarrow> sections
                      | Inr cleaned \<Rightarrow> sections\<lparr>collective_knowledge := cleaned\<rparr>)))"
    by (simp add: extract_knowledge_def)
next
  fix m
  assume "find_sub (ustr ''Collective Knowledge:'') t = Some m \<and> 91 \<notin> set (take m t)"
  then show "knowledge_body t = knowledge_body_spec t"
    using knowledge_body_spec_agree [of t m] by (simp add: knowledge_marker_def)
qed

theorem knowledge_body_first_bracket_witness:
  "extract_item loads_one initial_sections
     (PDict [(text_key, PStr (ustr ''Collective Knowledge: [{}]''))])
     = Inr (initial_sections\<lparr>collective_knowledge := PList [PDict []]\<rparr>) \<and>
   knowledge_body (ustr ''Collective Knowledge: [{}]'') = Some (ustr ''[{}]'') \<and>
   knowledge_body (ustr ''Collective Knowledge: [{}]'')
     = knowledge_body_spec (ustr ''Collective Knowledge: [{}]'')"
proof -
  let ?t = "ustr ''Collective Knowledge: [{}]''"
  have a: "\<not> str_contains (ustr ''Swarm Status'') ?t"
    and b: "\<not> re_search_agent_kw (ustr ''Response:'') ?t"
    and c: "\<not> re_search_agent_kw (ustr ''Metrics:'') ?t"
    and d: "str_contains (ustr ''Collective Knowledge:'') ?t"
    by (simp_all add: extract_eval clean_eval)
  note k = knowledge_body_first_bracket [OF a b c d, of loads_one initial_sections]
  have dw: "(if 91 \<in> set ?t then Some (dropWhile (\<lambda>c. c \<noteq> 91) ?t) else None) = Some (ustr ''[{}]'')"
    by (simp add: ustr_def)
  have m: "find_sub (ustr ''Collective Knowledge:'') ?t = Some 0 \<and> 91 \<notin> set (take 0 ?t)"
    by (simp add: ustr_def)
  from k dw have body: "knowledge_body ?t = Some (ustr ''[{}]'')" by simp
  from k m have agree: "knowledge_body ?t = knowledge_body_spec ?t" by blast
  have ck: "clean_knowledge (PList [PDict []]) = Inr (PList [PDict []])"
    by (simp add: clean_knowledge_def clean_knowledge_item_def)
  from k have "extract_item loads_one initial_sections (PDict [(text_key, PStr ?t)])
      = Inr (extract_knowledge loads_one initial_sections ?t)" by blast
  moreover from k have "extract_knowledge loads_one initial_sections ?t =
           (case knowledge_body ?t of
              None \<Rightarrow> initial_sections
            | Some body \<Rightarrow>
                (case loads_one body of
                   None \<Rightarrow> initial_sections
                 | Some knowledge_data \<Rightarrow>
                     (case clean_knowledge knowledge_data of
                        Inl e \<Rightarrow> initial_sections
                      | Inr cleaned \<Rightarrow> initial_sections\<lparr>collective_knowledge := cleaned\<rparr>)))"
    by blast
  ultimately have "extract_item loads_one initial_sections (PDict [(text_key, PStr ?t)])
      = Inr (initial_sections\<lparr>collective_knowledge := PList [PDict []]\<rparr>)"
    by (simp add: body loads_one_def ck)
  with body agree show ?thesis by (simp only: simp_thms)
qed


section \<open>Properties of the summary formatter\<close>

lemma py_slice_take: "py_slice s 0 (int n) = take n s"
  by (simp add: py_slice_def slice_index_def min_def)

lemma response_lines_append:
  "response_lines mx (rs @ rs') = response_lines mx rs @ response_lines mx rs'"
  by (induction mx rs rule: response_lines.induct) simp_all

text \<open>
  C8: with \<open>max_response_length = 10\<close>, a response body of 11 characters is rendered as
  its first 10 characters followed by \<open>...\<close>, and a body of exactly 10 characters is
  rendered in full without the marker. This holds for every content that the formatter
  renders: whatever other responses and metrics it holds, and whether its status is shown
  (a string that is not empty) or not (\<open>None\<close>, the empty string, or any other value that
  is false in a condition). The length is the number of code points.
\<close>

theorem truncation_boundary:
  assumes "agent_responses extracted_content = before @ [(agent_id, body)] @ after"
    and "swarm_status extracted_content = PStr status \<or> \<not> py_truthy (swarm_status extracted_content)"
  shows "(length body = 11 \<longrightarrow>
           format_swarm_summary extracted_content 10
           = Inr (py_join [10]
               (banner_block
                @ (if py_truthy (swarm_status extracted_content)
                   then [10 # ustr ''SWARM STATUS:'', replicate 40 45, status] else [])
                @ [10 # ustr ''AGENT RESPONSES:'', replicate 40 45]
                @ response_lines 10 before
                @ [10 # agent_id @ ustr '':'', take 10 body @ ustr ''...'']
                @ response_lines 10 after @ metrics_block (metrics extracted_content)))) \<and>
         (length body = 10 \<longrightarrow>
           format_swarm_summary extracted_content 10
           = Inr (py_join [10]
               (banner_block
                @ (if py_truthy (swarm_status extracted_content)
                   then [10 # ustr ''SWARM STATUS:'', replicate 40 45, status] else [])
                @ [10 # ustr ''AGENT RESPONSES:'', replicate 40 45]
                @ response_lines 10 before
                @ [10 # agent_id @ ustr '':'', body]
                @ response_lines 10 after @ metrics_block (metrics extracted_content))))"
proof -
  have t11: "length body = 11 \<Longrightarrow> truncate_response 10 body = take 10 body @ ustr ''...''"
    using py_slice_take [of body 10] by (simp add: truncate_response_def)
  have t10: "length body = 10 \<Longrightarrow> truncate_response 10 body = body"
    by (simp add: truncate_response_def)
  show ?thesis
  proof (cases "py_truthy (swarm_status extracted_content)")
    case True
    with assms(2) have "swarm_status extracted_content = PStr status" by simp
    with True assms(1) show ?thesis
      by (simp add: format_swarm_summary_def responses_block_def response_lines_append t11 t10)
  next
    case False
    with assms(1) show ?thesis
      by (simp add: format_swarm_summary_def responses_block_def response_lines_append t11 t10)
  qed
qed

theorem truncation_boundary_witness:
  "format_swarm_summary
     \<lparr>swarm_status = PStr (ustr ''Swarm Status: active''),
      agent_responses = [(ustr ''agent_1'', [233, 8364, 128512, 9581, 97, 98, 99, 100, 101, 102, 103])],
      metrics = [], collective_knowledge = PList []\<rparr> 10
   = Inr (ustr ''SWARM ANALYSIS SUMMARY'' @ [10] @ replicate 60 61 @ [10, 10]
          @ ustr ''SWARM STATUS:'' @ [10] @ replicate 40 45 @ [10] @ ustr ''Swarm Status: active''
          @ [10, 10] @ ustr ''AGENT RESPONSES:'' @ [10] @ replicate 40 45 @ [10, 10]
          @ ustr ''agent_1:'' @ [10]
          @ [233, 8364, 128512, 9581, 97, 98, 99, 100, 101, 102] @ ustr ''...'') \<and>
   format_swarm_summary
     \<lparr>swarm_status = PNone,
      agent_responses = [(ustr ''agent_1'', [233, 8364, 128512, 9581, 97, 98, 99, 100, 101, 102])],
      metrics = [], collective_knowledge = PList []\<rparr> 10
   = Inr (ustr ''SWARM ANALYSIS SUMMARY'' @ [10] @ replicate 60 61 @ [10, 10]
          @ ustr ''AGENT RESPONSES:'' @ [10] @ replicate 40 45 @ [10, 10] @ ustr ''agent_1:''
          @ [10] @ [233, 8364, 128512, 9581, 97, 98, 99, 100, 101, 102])"
proof -
  let ?b11 = "[233, 8364, 128512, 9581, 97, 98, 99, 100, 101, 102, 103] :: ustring"
  let ?b10 = "[233, 8364, 128512, 9581, 97, 98, 99, 100, 101, 102] :: ustring"
  let ?c1 = "\<lparr>swarm_status = PStr (ustr ''Swarm Status: active''),
      agent_responses = [(ustr ''agent_1'', ?b11)],
      metrics = [], collective_knowledge = PList []\<rparr>"
  let ?c2 = "\<lparr>swarm_status = PNone, agent_responses = [(ustr ''agent_1'', ?b10)],
      metrics = [], collective_knowledge = PList []\<rparr>"
  have a: "length ?b11 = 11" by simp
  have b: "length ?b10 = 10" by simp
  have r1: "agent_responses ?c1 = [] @ [(ustr ''agent_1'', ?b11)] @ []" by simp
  have s1: "swarm_status ?c1 = PStr (ustr ''Swarm Status: active'') \<or> \<not> py_truthy (swarm_status ?c1)"
    by simp
  have r2: "agent_responses ?c2 = [] @ [(ustr ''agent_1'', ?b10)] @ []" by simp
  have s2: "swarm_status ?c2 = PStr [] \<or> \<not> py_truthy (swarm_status ?c2)" by simp
  note w1 = truncation_boundary [OF r1 s1, THEN conjunct1, THEN mp, OF a]
  note w2 = truncation_boundary [OF r2 s2, THEN conjunct2, THEN mp, OF b]
  from w1 w2 show ?thesis
    by (simp add: banner_block_def metrics_block_def ustr_def)
qed

text \<open>A status that is true in a condition and is no string makes the formatter raise.\<close>

lemma format_non_string_status:
  "py_truthy (swarm_status extracted_content) \<Longrightarrow>
   \<forall>s. swarm_status extracted_content \<noteq> PStr s \<Longrightarrow>
   format_swarm_summary extracted_content mx = Inl TypeError"
  by (cases "swarm_status extracted_content") (simp_all add: format_swarm_summary_def Let_def)

section \<open>Properties of the entry points\<close>

text \<open>\<open>display_swarm_analysis\<close> wraps a string that fails to parse, and returns.\<close>

lemma extract_knowledge_status:
  "swarm_status (extract_knowledge loads sections t) = swarm_status sections"
  by (simp add: extract_knowledge_def split: option.splits sum.splits)

lemma extract_text_status:
  "swarm_status (extract_text loads sections t) = swarm_status sections"
  by (simp add: extract_text_def extract_knowledge_status)

lemma extract_item_status:
  "text_is_str item \<Longrightarrow> status_ok sections \<Longrightarrow>
   extract_item loads sections item = Inr s' \<Longrightarrow> status_ok s'"
  by (auto simp: text_is_str_def extract_item_def status_ok_def extract_text_status
      split: pyval.splits option.splits bool.splits)

lemma extract_loop_status:
  "list_all text_is_str items \<Longrightarrow> status_ok sections \<Longrightarrow>
   extract_loop loads sections items = Inr r \<Longrightarrow> status_ok r"
proof (induction items arbitrary: sections)
  case Nil then show ?case by simp
next
  case (Cons item items)
  from Cons.prems(3) obtain s' where s': "extract_item loads sections item = Inr s'"
    and r: "extract_loop loads s' items = Inr r"
    by (auto split: sum.splits)
  from Cons.prems(1,2) s' have "status_ok s'" by (auto intro: extract_item_status)
  with Cons.prems(1) r show ?case by (auto intro: Cons.IH)
qed

lemma format_swarm_summary_total:
  "status_ok extracted_content \<Longrightarrow> \<exists>report. format_swarm_summary extracted_content mx = Inr report"
  by (cases "swarm_status extracted_content")
     (simp_all add: format_swarm_summary_def status_ok_def Let_def)

lemma display_parse_failure:
  assumes c: "map_of swarm_result content_key = Some (PStr raw)" and f: "loads raw = None"
  shows "resolve_content loads swarm_result = Inr [PDict [(text_key, PStr raw)]] \<and>
         (\<exists>report extracted_content.
            extract_swarm_content loads [PDict [(text_key, PStr (clean_str raw))]]
              = Inr extracted_content \<and>
            format_swarm_summary extracted_content 500 = Inr report \<and>
            display_swarm_analysis loads print_error swarm_result verbose
              = (if verbose
                 then (case print_error report of
                         Some e \<Rightarrow> Inl e
                       | None \<Rightarrow> Inr (Some report, [PDict [(text_key, PStr (clean_str raw))]],
                                      extracted_content))
                 else Inr (None, [PDict [(text_key, PStr (clean_str raw))]], extracted_content)))"
proof -
  let ?cleaned = "[PDict [(text_key, PStr (clean_str raw))]]"
  have res: "resolve_content loads swarm_result = Inr [PDict [(text_key, PStr raw)]]"
    using c f by (simp add: resolve_content_def)
  have cl: "clean_swarm_output [PDict [(text_key, PStr raw)]] = ?cleaned"
    by (simp add: clean_swarm_output_def clean_item_def)
  have str: "list_all text_is_str ?cleaned" by (simp add: text_is_str_def)
  then obtain ec where ec: "extract_swarm_content loads ?cleaned = Inr ec"
    using extract_swarm_content_str_total by blast
  then have lp: "extract_loop loads initial_sections ?cleaned = Inr ec"
    by (simp only: extract_swarm_content_def)
  have "status_ok initial_sections" by (simp add: status_ok_def initial_sections_def)
  with str have "status_ok ec" using lp by (rule extract_loop_status)
  then obtain report where rp: "format_swarm_summary ec 500 = Inr report"
    using format_swarm_summary_total by blast
  with res cl ec have "display_swarm_analysis loads print_error swarm_result verbose
      = (if verbose
         then (case print_error report of
                 Some e \<Rightarrow> Inl e
               | None \<Rightarrow> Inr (Some report, ?cleaned, ec))
         else Inr (None, ?cleaned, ec))"
    by (simp add: display_swarm_analysis_def)
  with res ec rp show ?thesis by blast
qed

lemma save_parse_failure:
  "loads raw = None \<Longrightarrow>
   save_cleaned_swarm_output loads dumps can_open written_before files (PStr raw) output_file
     format_output = (files, Some JSONDecodeError)"
  by (simp add: save_cleaned_swarm_output_def)

text \<open>
  Past the parse, \<open>save_cleaned_swarm_output\<close> on a list writes the text of the cleaned
  list; when that text has no UTF-8 encoding the writing raises and the file is left with
  what had been written.
\<close>

lemma save_write:
  "can_open output_file \<Longrightarrow>
   save_cleaned_swarm_output loads dumps can_open written_before files (PList items) output_file
     format_output =
     (if utf8_encodable (dumps format_output (PList (clean_swarm_output items)))
      then (files(output_file \<mapsto> dumps format_output (PList (clean_swarm_output items))), None)
      else (files(output_file \<mapsto>
              written_before (dumps format_output (PList (clean_swarm_output items)))),
            Some UnicodeEncodeError))"
  by (simp add: save_cleaned_swarm_output_def Let_def)

lemma save_cannot_open:
  "\<not> can_open output_file \<Longrightarrow>
   save_cleaned_swarm_output loads dumps can_open written_before files (PList items) output_file
     format_output = (files, Some OSError)"
  by (simp add: save_cleaned_swarm_output_def)

text \<open>
  Claim C6 says that both operations that take the payload as a JSON string wrap a string
  that fails to parse into one synthetic fragment and raise nothing.
  \<open>save_cleaned_swarm_output\<close> calls \<open>json.loads\<close> outside any \<open>try\<close>: on \<open>not json\<close> the
  exception reaches the caller and nothing is written. And \<open>display_swarm_analysis\<close> with
  \<open>verbose\<close> on prints the report of the synthetic fragment: on the content
  \<open>Swarm Status\<close>, a space and the surrogate U+D800, which is no JSON, a UTF-8 console
  raises \<open>UnicodeEncodeError\<close>.
\<close>

theorem save_parse_failure_counterexample:
  "loads_none (ustr ''not json'') = None \<and>
   save_cleaned_swarm_output loads_none (\<lambda>b v. []) (\<lambda>f. True) (\<lambda>out. []) Map.empty
     (PStr (ustr ''not json'')) (ustr ''cleaned_swarm_output.json'') True
     = (Map.empty, Some JSONDecodeError) \<and>
   loads_none (ustr ''Swarm Status '' @ [55296]) = None \<and>
   display_swarm_analysis loads_none utf8_console
     [(content_key, PStr (ustr ''Swarm Status '' @ [55296]))] True
     = Inl UnicodeEncodeError"
  by (simp add: save_cleaned_swarm_output_def loads_none_def display_swarm_analysis_def
      resolve_content_def clean_swarm_output_def clean_item_def content_key_def
      format_swarm_summary_def banner_block_def responses_block_def metrics_block_def
      utf8_console_def utf8_encodable_def extract_eval clean_eval)

text \<open>
  C6, amended: when the raw payload string fails to parse, the pipeline entry point
  \<open>display_swarm_analysis\<close> treats it as one synthetic fragment whose \<open>text\<close> is the raw
  string; the parse error does not reach the caller, and neither the extraction nor the
  formatting of that fragment raises. With \<open>verbose\<close> off the call returns the one cleaned
  fragment and what the extractor finds in it; with \<open>verbose\<close> on it returns the same
  after printing the report, unless \<open>print\<close> itself raises on the report, and then that
  exception reaches the caller. The persistence variant \<open>save_cleaned_swarm_output\<close> has
  no fallback: the parse error reaches the caller and the file system is untouched.
\<close>

theorem parse_failure_handling:
  assumes "loads raw = None"
  shows "(map_of swarm_result content_key = Some (PStr raw) \<longrightarrow>
           resolve_content loads swarm_result = Inr [PDict [(text_key, PStr raw)]] \<and>
           (\<exists>report extracted_content.
              extract_swarm_content loads [PDict [(text_key, PStr (clean_str raw))]]
                = Inr extracted_content \<and>
              format_swarm_summary extracted_content 500 = Inr report \<and>
              display_swarm_analysis loads print_error swarm_result verbose
                = (if verbose
                   then (case print_error report of
                           Some e \<Rightarrow> Inl e
                         | None \<Rightarrow> Inr (Some report, [PDict [(text_key, PStr (clean_str raw))]],
                                        extracted_content))
                   else Inr (None, [PDict [(text_key, PStr (clean_str raw))]],
                             extracted_content)))) \<and>
         save_cleaned_swarm_output loads dumps can_open written_before files (PStr raw)
           output_file format_output = (files, Some JSONDecodeError)"
  using assms display_parse_failure [of swarm_result raw loads print_error verbose]
    save_parse_failure [of loads raw dumps can_open written_before files output_file format_output]
  by blast

theorem parse_failure_handling_witness:
  "(\<exists>report extracted_content.
      display_swarm_analysis loads_none utf8_console [(content_key, PStr (ustr ''not json''))] False
        = Inr (None, [PDict [(text_key, PStr (clean_str (ustr ''not json'')))]], extracted_content) \<and>
      format_swarm_summary extracted_content 500 = Inr report \<and>
      display_swarm_analysis loads_none utf8_console [(content_key, PStr (ustr ''not json''))] True
        = (case utf8_console report of
             Some e \<Rightarrow> Inl e
           | None \<Rightarrow> Inr (Some report, [PDict [(text_key, PStr (clean_str (ustr ''not json'')))]],
                          extracted_content))) \<and>
   save_cleaned_swarm_output loads_none (\<lambda>b v. []) (\<lambda>f. True) (\<lambda>out. []) Map.empty
     (PStr (ustr ''not json'')) (ustr ''cleaned_swarm_output.json'') True
     = (Map.empty, Some JSONDecodeError)"
proof -
  let ?raw = "ustr ''not json''"
  let ?sr = "[(content_key, PStr ?raw)]"
  have f: "loads_none ?raw = None" by (simp add: loads_none_def)
  have c: "map_of ?sr content_key = Some (PStr ?raw)" by simp
  note off = parse_failure_handling [of loads_none ?raw ?sr utf8_console False
      "\<lambda>b v. []" "\<lambda>f. True" "\<lambda>out. []" Map.empty "ustr ''cleaned_swarm_output.json''" True, OF f]
  note on = parse_failure_handling [of loads_none ?raw ?sr utf8_console True
      "\<lambda>b v. []" "\<lambda>f. True" "\<lambda>out. []" Map.empty "ustr ''cleaned_swarm_output.json''" True, OF f]
  from off c obtain r1 e1 where 1:
    "extract_swarm_content loads_none [PDict [(text_key, PStr (clean_str ?raw))]] = Inr e1"
    "format_swarm_summary e1 500 = Inr r1"
    "display_swarm_analysis loads_none utf8_console ?sr False
       = Inr (None, [PDict [(text_key, PStr (clean_str ?raw))]], e1)"
    by auto
  from on c obtain r2 e2 where 2:
    "extract_swarm_content loads_none [PDict [(text_key, PStr (clean_str ?raw))]] = Inr e2"
    "format_swarm_summary e2 500 = Inr r2"
    "display_swarm_analysis loads_none utf8_console ?sr True
       = (case utf8_console r2 of
            Some e \<Rightarrow> Inl e
          | None \<Rightarrow> Inr (Some r2, [PDict [(text_key, PStr (clean_str ?raw))]], e2))"
    by auto
  from 1(1) 2(1) have "e2 = e1" by simp
  with 1(2) 2(2) have "r2 = r1" by simp
  note d2 = 2(3) [unfolded \<open>e2 = e1\<close> \<open>r2 = r1\<close>]
  from 1 d2 have "display_swarm_analysis loads_none utf8_console ?sr False
        = Inr (None, [PDict [(text_key, PStr (clean_str ?raw))]], e1) \<and>
      format_swarm_summary e1 500 = Inr r1 \<and>
      display_swarm_analysis loads_none utf8_console ?sr True
        = (case utf8_console r1 of
             Some e \<Rightarrow> Inl e
           | None \<Rightarrow> Inr (Some r1, [PDict [(text_key, PStr (clean_str ?raw))]], e1))"
    by simp
  then have "\<exists>report extracted_content.
      display_swarm_analysis loads_none utf8_console ?sr False
        = Inr (None, [PDict [(text_key, PStr (clean_str ?raw))]], extracted_content) \<and>
      format_swarm_summary extracted_content 500 = Inr report \<and>
      display_swarm_analysis loads_none utf8_console ?sr True
        = (case utf8_console report of
             Some e \<Rightarrow> Inl e
           | None \<Rightarrow> Inr (Some report, [PDict [(text_key, PStr (clean_str ?raw))]],
                          extracted_content))"
    by blast
  moreover from off have "save_cleaned_swarm_output loads_none (\<lambda>b v. []) (\<lambda>f. True) (\<lambda>out. [])
      Map.empty (PStr ?raw) (ustr ''cleaned_swarm_output.json'') True
      = (Map.empty, Some JSONDecodeError)" by blast
  ultimately show ?thesis by blast
qed

section \<open>The batch cleaner leaves its argument as it is\<close>

lemma list_append_frame: "a \<noteq> b \<Longrightarrow> list_append g a x ! b = g ! b"
  by (simp add: list_append_def split: hobj.splits)

lemma list_append_length: "length (list_append g a x) = length g"
  by (simp add: list_append_def split: hobj.splits)

lemma list_append_at:
  "a < length g \<Longrightarrow> g ! a = HList xs \<Longrightarrow> list_append g a x ! a = HList (xs @ [x])"
  by (simp add: list_append_def)

lemma text_dict_old:
  assumes "take n g = h" "n = length h" "\<forall>a. x = HRef a \<longrightarrow> a < n" "n \<le> length g"
  shows "text_dict g x = text_dict h x"
proof (cases x)
  case (HRef a)
  with assms have a: "a < n" by simp
  with assms have "g ! a = h ! a" by (metis nth_take)
  with a assms HRef show ?thesis by (simp add: text_dict_def)
qed (simp_all add: text_dict_def)

text \<open>One step of the loop.\<close>

lemma clean_step_props:
  assumes n: "n = length h" and len: "n < length g" and old: "take n g = h"
    and out: "g ! n = HList acc" and wf: "\<forall>a. x = HRef a \<longrightarrow> a < n"
  shows "\<exists>r. length g \<le> length (clean_step n x g) \<and>
             take n (clean_step n x g) = h \<and>
             clean_step n x g ! n = HList (acc @ [r]) \<and>
             (\<forall>c. n < c \<and> c < length g \<longrightarrow> clean_step n x g ! c = g ! c) \<and>
             (case text_dict h x of
                Some (kvs, v) \<Rightarrow>
                  (\<exists>c. r = HRef c \<and> n < c \<and> c < length (clean_step n x g) \<and>
                       clean_step n x g ! c = HDict (AList.update text_key (clean_swarm_text_h v) kvs))
              | None \<Rightarrow> r = x)"
proof -
  have td: "text_dict g x = text_dict h x"
    using old n wf len by (intro text_dict_old) auto
  show ?thesis
  proof (cases "text_dict h x")
    case None
    with td have cs: "clean_step n x g = list_append g n x" by (simp add: clean_step_def)
    have "take n (list_append g n x) = h"
      using old len out by (simp add: list_append_def)
    moreover have "list_append g n x ! n = HList (acc @ [x])"
      using len out by (rule list_append_at)
    moreover have "\<forall>c. n < c \<and> c < length g \<longrightarrow> list_append g n x ! c = g ! c"
      by (simp add: list_append_frame)
    ultimately show ?thesis using None cs by (simp add: list_append_length)
  next
    case (Some p)
    obtain kvs v where p: "p = (kvs, v)" by (cases p)
    let ?c = "length g"
    let ?d = "HDict (AList.update text_key (clean_swarm_text_h v) kvs)"
    let ?g2 = "(g @ [HDict kvs])[?c := ?d]"
    have g2: "?g2 = g @ [?d]" by simp
    from Some p td have cs: "clean_step n x g = list_append (g @ [?d]) n (HRef ?c)"
      by (simp add: clean_step_def alloc_def dict_set_def)
    have outn: "(g @ [?d]) ! n = HList acc" using len out by (simp add: nth_append)
    have len2: "n < length (g @ [?d])" using len by simp
    have at: "list_append (g @ [?d]) n (HRef ?c) ! n = HList (acc @ [HRef ?c])"
      using len2 outn by (rule list_append_at)
    have expl: "list_append (g @ [?d]) n (HRef ?c) = (g @ [?d])[n := HList (acc @ [HRef ?c])]"
      using len2 outn by (simp add: list_append_def)
    have tk: "take n (list_append (g @ [?d]) n (HRef ?c)) = h"
      using old len by (simp add: expl)
    have fr: "\<forall>c. n < c \<and> c < length g \<longrightarrow> list_append (g @ [?d]) n (HRef ?c) ! c = g ! c"
      by (simp add: list_append_frame nth_append)
    have new: "list_append (g @ [?d]) n (HRef ?c) ! ?c = ?d"
      using len by (simp add: list_append_frame)
    show ?thesis
      using Some p cs at tk fr new len by (simp add: list_append_length)
  qed
qed

text \<open>The whole loop.\<close>

lemma fold_clean_step:
  assumes "n = length h" "n < length g" "take n g = h" "g ! n = HList acc"
    "\<forall>x \<in> set items. \<forall>a. x = HRef a \<longrightarrow> a < n"
  shows "\<exists>res. length g \<le> length (fold (clean_step n) items g) \<and>
           take n (fold (clean_step n) items g) = h \<and>
           fold (clean_step n) items g ! n = HList (acc @ res) \<and>
           length res = length items \<and>
           (\<forall>c. n < c \<and> c < length g \<longrightarrow> fold (clean_step n) items g ! c = g ! c) \<and>
           (\<forall>i < length items.
              case text_dict h (items ! i) of
                Some (kvs, v) \<Rightarrow>
                  (\<exists>c. res ! i = HRef c \<and> n < c \<and> c < length (fold (clean_step n) items g) \<and>
                       fold (clean_step n) items g ! c
                         = HDict (AList.update text_key (clean_swarm_text_h v) kvs))
              | None \<Rightarrow> res ! i = items ! i)"
  using assms
proof (induction items arbitrary: g acc)
  case Nil
  then show ?case by simp
next
  case (Cons x items)
  let ?g1 = "clean_step n x g"
  let ?g' = "fold (clean_step n) items ?g1"
  from Cons.prems have wfx: "\<forall>a. x = HRef a \<longrightarrow> a < n" by simp
  from clean_step_props [OF Cons.prems(1) Cons.prems(2) Cons.prems(3) Cons.prems(4) wfx]
  obtain r where s1: "length g \<le> length ?g1" and s2: "take n ?g1 = h"
    and s3: "?g1 ! n = HList (acc @ [r])"
    and s4: "\<forall>c. n < c \<and> c < length g \<longrightarrow> ?g1 ! c = g ! c"
    and s5: "case text_dict h x of
                Some (kvs, v) \<Rightarrow>
                  (\<exists>c. r = HRef c \<and> n < c \<and> c < length ?g1 \<and>
                       ?g1 ! c = HDict (AList.update text_key (clean_swarm_text_h v) kvs))
              | None \<Rightarrow> r = x"
    by blast
  from s1 Cons.prems(2) have l1: "n < length ?g1" by simp
  from Cons.prems(5) have wfi: "\<forall>x \<in> set items. \<forall>a. x = HRef a \<longrightarrow> a < n" by simp
  from Cons.IH [OF Cons.prems(1) l1 s2 s3 wfi]
  obtain res where t1: "length ?g1 \<le> length ?g'" and t2: "take n ?g' = h"
    and t3: "?g' ! n = HList ((acc @ [r]) @ res)" and t4: "length res = length items"
    and t5: "\<forall>c. n < c \<and> c < length ?g1 \<longrightarrow> ?g' ! c = ?g1 ! c"
    and t6: "\<forall>i < length items.
              case text_dict h (items ! i) of
                Some (kvs, v) \<Rightarrow>
                  (\<exists>c. res ! i = HRef c \<and> n < c \<and> c < length ?g' \<and>
                       ?g' ! c = HDict (AList.update text_key (clean_swarm_text_h v) kvs))
              | None \<Rightarrow> res ! i = items ! i"
    by blast
  have r0: "case text_dict h x of
                Some (kvs, v) \<Rightarrow>
                  (\<exists>c. r = HRef c \<and> n < c \<and> c < length ?g' \<and>
                       ?g' ! c = HDict (AList.update text_key (clean_swarm_text_h v) kvs))
              | None \<Rightarrow> r = x"
  proof (cases "text_dict h x")
    case None with s5 show ?thesis by simp
  next
    case (Some p)
    obtain kvs v where p: "p = (kvs, v)" by (cases p)
    with Some s5 obtain c where c: "r = HRef c" "n < c" "c < length ?g1"
      "?g1 ! c = HDict (AList.update text_key (clean_swarm_text_h v) kvs)" by auto
    with t5 have "?g' ! c = HDict (AList.update text_key (clean_swarm_text_h v) kvs)" by simp
    with c t1 Some p show ?thesis by auto
  qed
  have all: "\<forall>i < length (x # items).
              case text_dict h ((x # items) ! i) of
                Some (kvs, v) \<Rightarrow>
                  (\<exists>c. (r # res) ! i = HRef c \<and> n < c \<and> c < length ?g' \<and>
                       ?g' ! c = HDict (AList.update text_key (clean_swarm_text_h v) kvs))
              | None \<Rightarrow> (r # res) ! i = (x # items) ! i"
  proof (intro allI impI)
    fix i assume i: "i < length (x # items)"
    show "case text_dict h ((x # items) ! i) of
                Some (kvs, v) \<Rightarrow>
                  (\<exists>c. (r # res) ! i = HRef c \<and> n < c \<and> c < length ?g' \<and>
                       ?g' ! c = HDict (AList.update text_key (clean_swarm_text_h v) kvs))
              | None \<Rightarrow> (r # res) ! i = (x # items) ! i"
    proof (cases i)
      case 0
      show ?thesis unfolding 0 nth_Cons_0 by (rule r0)
    next
      case (Suc j)
      with i have "j < length items" by simp
      with t6 show ?thesis unfolding Suc nth_Cons_Suc by blast
    qed
  qed
  have fr: "\<forall>c. n < c \<and> c < length g \<longrightarrow> ?g' ! c = g ! c"
    using s1 s4 t5 by auto
  have "length g \<le> length ?g' \<and> take n ?g' = h \<and> ?g' ! n = HList (acc @ (r # res)) \<and>
        length (r # res) = length (x # items)"
    using s1 t1 t2 t3 t4 by simp
  with fr all have "length g \<le> length ?g' \<and> take n ?g' = h \<and>
      ?g' ! n = HList (acc @ (r # res)) \<and> length (r # res) = length (x # items) \<and>
      (\<forall>c. n < c \<and> c < length g \<longrightarrow> ?g' ! c = g ! c) \<and>
      (\<forall>i < length (x # items).
              case text_dict h ((x # items) ! i) of
                Some (kvs, v) \<Rightarrow>
                  (\<exists>c. (r # res) ! i = HRef c \<and> n < c \<and> c < length ?g' \<and>
                       ?g' ! c = HDict (AList.update text_key (clean_swarm_text_h v) kvs))
              | None \<Rightarrow> (r # res) ! i = (x # items) ! i)"
    by blast
  then show ?case unfolding fold_simps by (rule exI [of _ "r # res"])
qed

text \<open>After any number of steps, the caller's list is what it was.\<close>

lemma loop_reads_same_list:
  assumes "json_data < length h" and "h ! json_data = HList items"
    and "\<forall>x \<in> set items. \<forall>a. x = HRef a \<longrightarrow> a < length h"
  shows "fold (clean_step (length h)) (take k items) (h @ [HList []]) ! json_data = HList items"
proof -
  let ?g' = "fold (clean_step (length h)) (take k items) (h @ [HList []])"
  from assms(3) have "\<forall>x \<in> set (take k items). \<forall>a. x = HRef a \<longrightarrow> a < length h"
    by (meson in_set_takeD)
  then have "\<exists>res. length (h @ [HList []]) \<le> length ?g' \<and> take (length h) ?g' = h \<and>
      ?g' ! length h = HList ([] @ res) \<and> length res = length (take k items) \<and>
      (\<forall>c. length h < c \<and> c < length (h @ [HList []]) \<longrightarrow> ?g' ! c = (h @ [HList []]) ! c) \<and>
      (\<forall>i < length (take k items).
              case text_dict h (take k items ! i) of
                Some (kvs, v) \<Rightarrow>
                  (\<exists>c. res ! i = HRef c \<and> length h < c \<and> c < length ?g' \<and>
                       ?g' ! c = HDict (AList.update text_key (clean_swarm_text_h v) kvs))
              | None \<Rightarrow> res ! i = take k items ! i)"
    by (intro fold_clean_step) simp_all
  then have "take (length h) ?g' = h" by blast
  with assms(1) have "?g' ! json_data = h ! json_data" by (metis nth_take)
  with assms(2) show ?thesis by simp
qed

text \<open>
  C9: the batch cleaner never mutates its argument. For every store and every list
  \<open>json_data\<close> in it whose elements refer to objects of the store, the call returns a
  new list at a new address, and every object that was in the store before the call is
  the same after it: the caller's list and each of its elements. At each index, an
  element that is a dict with the key \<open>text\<close> is answered by a reference to a new dict,
  the copy with the cleaned text, and every other element by itself.
\<close>

theorem batch_clean_frame:
  assumes "json_data < length h" and "h ! json_data = HList items"
    and "\<forall>x \<in> set items. \<forall>a. x = HRef a \<longrightarrow> a < length h"
  shows "\<exists>h' res.
           clean_swarm_output_h h json_data = Inr (h', length h) \<and>
           take (length h) h' = h \<and>
           h' ! json_data = HList items \<and>
           h' ! length h = HList res \<and>
           length res = length items \<and>
           (\<forall>i < length items.
              case text_dict h (items ! i) of
                Some (kvs, v) \<Rightarrow>
                  (\<exists>c. res ! i = HRef c \<and> length h < c \<and> c < length h' \<and>
                       h' ! c = HDict (AList.update text_key (clean_swarm_text_h v) kvs))
              | None \<Rightarrow> res ! i = items ! i)"
proof -
  let ?n = "length h"
  let ?g = "h @ [HList []]"
  let ?h' = "fold (clean_step ?n) items ?g"
  have run: "clean_swarm_output_h h json_data = Inr (?h', ?n)"
    using assms(1,2) by (simp add: clean_swarm_output_h_def alloc_def)
  have "\<exists>res. length ?g \<le> length ?h' \<and> take ?n ?h' = h \<and> ?h' ! ?n = HList ([] @ res) \<and>
      length res = length items \<and>
      (\<forall>c. ?n < c \<and> c < length ?g \<longrightarrow> ?h' ! c = ?g ! c) \<and>
      (\<forall>i < length items.
              case text_dict h (items ! i) of
                Some (kvs, v) \<Rightarrow>
                  (\<exists>c. res ! i = HRef c \<and> ?n < c \<and> c < length ?h' \<and>
                       ?h' ! c = HDict (AList.update text_key (clean_swarm_text_h v) kvs))
              | None \<Rightarrow> res ! i = items ! i)"
    using assms(3) by (intro fold_clean_step) simp_all
  then obtain res where r: "take ?n ?h' = h" "?h' ! ?n = HList res" "length res = length items"
      "\<forall>i < length items.
              case text_dict h (items ! i) of
                Some (kvs, v) \<Rightarrow>
                  (\<exists>c. res ! i = HRef c \<and> ?n < c \<and> c < length ?h' \<and>
                       ?h' ! c = HDict (AList.update text_key (clean_swarm_text_h v) kvs))
              | None \<Rightarrow> res ! i = items ! i"
    by auto
  from r(1) assms(1) have "?h' ! json_data = h ! json_data" by (metis nth_take)
  with assms(2) have jd: "?h' ! json_data = HList items" by simp
  from run r jd show ?thesis by blast
qed

theorem batch_clean_frame_witness:
  "\<exists>h' res.
     clean_swarm_output_h
       [HDict [(text_key, HStr [27, 91, 109, 72, 105])], HList [HRef 0, HInt 7]] 1 = Inr (h', 2) \<and>
     take 2 h' = [HDict [(text_key, HStr [27, 91, 109, 72, 105])], HList [HRef 0, HInt 7]] \<and>
     h' ! 2 = HList res \<and> length res = 2"
proof -
  let ?h = "[HDict [(text_key, HStr [27, 91, 109, 72, 105])], HList [HRef 0, HInt 7]]"
  have a: "(1::nat) < length ?h" by simp
  have b: "?h ! 1 = HList [HRef 0, HInt 7]" by simp
  have c: "\<forall>x \<in> set [HRef 0, HInt 7]. \<forall>a. x = HRef a \<longrightarrow> a < length ?h" by simp
  from batch_clean_frame [OF a b c] obtain h' res where
    "clean_swarm_output_h ?h 1 = Inr (h', length ?h)" "take (length ?h) h' = ?h"
    "h' ! length ?h = HList res" "length res = length [HRef 0, HInt 7]"
    by blast
  moreover have "length ?h = 2" "length [HRef 0, HInt 7] = 2" by simp_all
  ultimately have "clean_swarm_output_h ?h 1 = Inr (h', 2) \<and> take 2 h' = ?h \<and>
      h' ! 2 = HList res \<and> length res = 2"
    by (simp only: simp_thms)
  then show ?thesis by blast
qed

end
